theory Spec2Isabelle
  imports Main "HOL-Library.Char_ord" "HOL-Library.List_Lexorder" "HOL-Library.Product_Lexorder"
begin

section \<open>JavaScript values and objects\<close>

text \<open>
  Attribute values as the indexer stores them. Numbers are restricted to integers
  (track, disk and year values); strings are byte strings compared by character code.
\<close>

datatype jsval =
    JUndefined
  | JNull
  | JBool bool
  | JNum int
  | JStr string
  | JArr "jsval list"
  | JObj "(string \<times> jsval) list"

text \<open>
  A JavaScript object is an association list in own-property order: keys that are
  array indices (canonical decimal numerals up to \<open>2^32 - 2\<close>) come first, in ascending
  numeric order, and all other keys follow in insertion order. \<open>Object.entries\<close> reads
  the list as it is. Property names inherited from \<open>Object.prototype\<close> are not modelled.
\<close>

type_synonym 'v obj = "(string \<times> 'v) list"

definition is_digit :: "char \<Rightarrow> bool" where
  "is_digit c = (c \<in> set ''0123456789'')"

definition digit_val :: "char \<Rightarrow> int" where
  "digit_val c = of_char c - 48"

definition dec_val :: "string \<Rightarrow> int" where
  "dec_val s = foldl (\<lambda>n c. 10 * n + digit_val c) 0 s"

definition is_array_index :: "string \<Rightarrow> bool" where
  "is_array_index s =
     (s \<noteq> [] \<and> list_all is_digit s \<and> (hd s \<noteq> CHR ''0'' \<or> length s = 1)
      \<and> dec_val s \<le> 4294967294)"

definition obj_get :: "'v obj \<Rightarrow> string \<Rightarrow> 'v option" where
  "obj_get ob k = map_of ob k"

definition obj_keys :: "'v obj \<Rightarrow> string list" where
  "obj_keys ob = map fst ob"

fun obj_replace :: "'v obj \<Rightarrow> string \<Rightarrow> 'v \<Rightarrow> 'v obj" where
  "obj_replace [] k v = []"
| "obj_replace ((k', v') # rest) k v =
     (if k' = k then (k, v) # rest else (k', v') # obj_replace rest k v)"

fun obj_insert_index :: "'v obj \<Rightarrow> string \<Rightarrow> 'v \<Rightarrow> 'v obj" where
  "obj_insert_index [] k v = [(k, v)]"
| "obj_insert_index ((k', v') # rest) k v =
     (if is_array_index k' \<and> dec_val k' < dec_val k
      then (k', v') # obj_insert_index rest k v
      else (k, v) # (k', v') # rest)"

text \<open>\<open>ob[k] = v\<close>: an existing key keeps its place; a new key is placed by the rule above.\<close>

definition obj_set :: "'v obj \<Rightarrow> string \<Rightarrow> 'v \<Rightarrow> 'v obj" where
  "obj_set ob k v =
     (if k \<in> set (obj_keys ob) then obj_replace ob k v
      else if is_array_index k then obj_insert_index ob k v
      else ob @ [(k, v)])"

text \<open>\<open>delete ob[k]\<close>.\<close>

definition obj_delete :: "'v obj \<Rightarrow> string \<Rightarrow> 'v obj" where
  "obj_delete ob k = filter (\<lambda>e. fst e \<noteq> k) ob"

text \<open>\<open>Object.fromEntries\<close>: the entries are assigned one after the other.\<close>

definition fromEntries :: "(string \<times> 'v) list \<Rightarrow> 'v obj" where
  "fromEntries es = foldl (\<lambda>ob e. obj_set ob (fst e) (snd e)) [] es"

text \<open>The spread \<open>{...a, ...b}\<close>: the properties of \<open>a\<close>, then those of \<open>b\<close> assigned over them.\<close>

definition obj_spread :: "'v obj \<Rightarrow> 'v obj \<Rightarrow> 'v obj" where
  "obj_spread a b = foldl (\<lambda>ob e. obj_set ob (fst e) (snd e)) (fromEntries a) b"

section \<open>Strings\<close>

text \<open>\<open>s.startsWith(p)\<close>.\<close>

definition startsWith :: "string \<Rightarrow> string \<Rightarrow> bool" where
  "startsWith s p = (take (length p) s = p)"

text \<open>
  \<open>s.split(sep)\<close> for a non-empty separator: the occurrences of \<open>sep\<close> are found from
  the left, without overlap; \<open>acc\<close> holds the current segment, reversed.
\<close>

function split_loop :: "string \<Rightarrow> string \<Rightarrow> string \<Rightarrow> string list" where
  "split_loop sep acc [] = [rev acc]"
| "split_loop sep acc (c # cs) =
     (if sep \<noteq> [] \<and> startsWith (c # cs) sep
      then rev acc # split_loop sep [] (drop (length sep) (c # cs))
      else split_loop sep (c # acc) cs)"
  by pat_completeness auto
termination
  by (relation "measure (\<lambda>(sep, acc, s). length s)") auto

definition split :: "string \<Rightarrow> string \<Rightarrow> string list" where
  "split s sep = split_loop sep [] s"

text \<open>Decimal digits of a natural number, and \<open>String(n)\<close> for an integer.\<close>

function digits :: "nat \<Rightarrow> string" where
  "digits n = (if n < 10 then [char_of (48 + n)] else digits (n div 10) @ [char_of (48 + n mod 10)])"
  by pat_completeness auto
termination
  by (relation "measure id") auto

definition int_to_string :: "int \<Rightarrow> string" where
  "int_to_string i = (if i < 0 then CHR ''-'' # digits (nat (- i)) else digits (nat i))"

fun join :: "string \<Rightarrow> string list \<Rightarrow> string" where
  "join sep [] = []"
| "join sep [s] = s"
| "join sep (s # t # rest) = s @ sep @ join sep (t # rest)"

text \<open>\<open>String(v)\<close>, which is also how a value becomes a property key.\<close>

fun js_toString :: "jsval \<Rightarrow> string" where
  "js_toString JUndefined = ''undefined''"
| "js_toString JNull = ''null''"
| "js_toString (JBool b) = (if b then ''true'' else ''false'')"
| "js_toString (JNum n) = int_to_string n"
| "js_toString (JStr s) = s"
| "js_toString (JArr xs) =
     join '','' (map (\<lambda>x. if x = JUndefined \<or> x = JNull then [] else js_toString x) xs)"
| "js_toString (JObj ob) = ''[object Object]''"

text \<open>Truthiness, as \<open>if (v)\<close> and \<open>!v\<close> test it.\<close>

fun truthy :: "jsval \<Rightarrow> bool" where
  "truthy JUndefined = False"
| "truthy JNull = False"
| "truthy (JBool b) = b"
| "truthy (JNum n) = (n \<noteq> 0)"
| "truthy (JStr s) = (s \<noteq> [])"
| "truthy (JArr xs) = True"
| "truthy (JObj ob) = True"

text \<open>\<open>ob[k]\<close> on a plain object of attribute values: \<open>undefined\<close> when the key is absent.\<close>

definition get_prop :: "jsval obj \<Rightarrow> string \<Rightarrow> jsval" where
  "get_prop ob k = (case obj_get ob k of None \<Rightarrow> JUndefined | Some v \<Rightarrow> v)"

text \<open>\<open>Array.isArray(v)\<close> and \<open>v[0]\<close> on an array.\<close>

fun isArray :: "jsval \<Rightarrow> bool" where
  "isArray (JArr xs) = True"
| "isArray v = False"

fun elem0 :: "jsval \<Rightarrow> jsval" where
  "elem0 (JArr (x # xs)) = x"
| "elem0 v = JUndefined"

section \<open>Errors\<close>

text \<open>A thrown error, by the two fields the handlers inspect: \<open>err.name\<close> and \<open>err.code\<close>.\<close>

record js_error =
  err_name :: string
  err_code :: "string option"
  err_message :: string

definition ENOENT :: js_error where
  "ENOENT = \<lparr>err_name = ''Error'', err_code = Some ''ENOENT'', err_message = ''no such file or directory''\<rparr>"

definition SyntaxError :: js_error where
  "SyntaxError = \<lparr>err_name = ''SyntaxError'', err_code = None, err_message = ''Unexpected token''\<rparr>"

definition Z_DATA_ERROR :: js_error where
  "Z_DATA_ERROR = \<lparr>err_name = ''Error'', err_code = Some ''Z_DATA_ERROR'', err_message = ''incorrect header check''\<rparr>"

definition TypeError :: "string \<Rightarrow> js_error" where
  "TypeError msg = \<lparr>err_name = ''TypeError'', err_code = Some ''ERR_INVALID_ARG_TYPE'', err_message = msg\<rparr>"

section \<open>The persisted cache (cache.js, gzip.js)\<close>

text \<open>
  What a cache file can hold. \<open>gunzip\<close> accepts a gzip stream and fails on any other
  bytes; \<open>JSON.parse\<close> accepts a JSON text and throws a \<open>SyntaxError\<close> on any other
  text. \<open>gzip (JSON.stringify v)\<close> is \<open>Gzipped (Json v)\<close>: a cached value is held as
  what \<open>JSON.parse\<close> gives back for its text, so what \<open>JSON.stringify\<close> leaves out (a
  property whose value is \<open>undefined\<close>) is taken not to occur in a value that is cached.
\<close>

datatype 'a json_text = Json 'a | Malformed

datatype 'a bytes = Gzipped "'a json_text" | Garbage

definition gunzip :: "'a bytes \<Rightarrow> js_error + 'a json_text" where
  "gunzip b = (case b of Gzipped t \<Rightarrow> Inr t | Garbage \<Rightarrow> Inl Z_DATA_ERROR)"

definition gzip :: "'a json_text \<Rightarrow> 'a bytes" where
  "gzip t = Gzipped t"

definition JSON_parse :: "'a json_text \<Rightarrow> js_error + 'a" where
  "JSON_parse t = (case t of Json v \<Rightarrow> Inr v | Malformed \<Rightarrow> Inl SyntaxError)"

definition JSON_stringify :: "'a \<Rightarrow> 'a json_text" where
  "JSON_stringify v = Json v"

text \<open>
  A file system of cache files: reading a path gives its bytes or fails (\<open>ENOENT\<close> when
  the file is missing, another error when it cannot be read).
\<close>

type_synonym 'a cache_fs = "string \<Rightarrow> js_error + 'a bytes"

definition gz_path :: "string \<Rightarrow> string" where
  "gz_path filepath = filepath @ ''.gz''"

text \<open>The \<open>try\<close> block of \<open>readCache\<close>: read, decompress, parse.\<close>

definition readCache_try :: "'a obj cache_fs \<Rightarrow> string \<Rightarrow> js_error + 'a obj" where
  "readCache_try fs filepath =
     (case fs (gz_path filepath) of
        Inl err \<Rightarrow> Inl err
      | Inr b \<Rightarrow>
          (case gunzip b of
             Inl err \<Rightarrow> Inl err
           | Inr t \<Rightarrow> JSON_parse t))"

definition readCache :: "'a obj cache_fs \<Rightarrow> string \<Rightarrow> js_error + 'a obj" where
  "readCache fs filepath =
     (case readCache_try fs filepath of
        Inr cached \<Rightarrow> Inr cached
      | Inl err \<Rightarrow>
          if err_code err = Some ''ENOENT'' then Inr []
          else if err_name err = ''SyntaxError'' then Inr []
          else Inl err)"

definition writeCache :: "'a cache_fs \<Rightarrow> string \<Rightarrow> 'a \<Rightarrow> 'a cache_fs" where
  "writeCache fs filepath content = fs(gz_path filepath := Inr (gzip (JSON_stringify content)))"

section \<open>Records, categories and the indexer's state\<close>

text \<open>
  One entry of \<open>state.data\<close>. A field that the object does not have is \<open>None\<close>. A
  record written by \<open>processFile\<close> has every field but \<open>error\<close>; the record written
  for a failed file has \<open>error\<close> alone. \<open>meta\<close> is the object \<open>{category: code}\<close>:
  \<open>Some None\<close> when the code is undefined.
\<close>

record file_record =
  r_tags :: "jsval obj option"
  r_category :: "jsval obj option"
  r_format :: "jsval obj option"
  r_meta :: "string option option"
  r_file :: "string option"
  r_time :: "int option"
  r_mtime :: "int option"
  r_ext :: "string option"
  r_error :: "string option"

text \<open>The empty object \<open>{}\<close> read as a record.\<close>

definition empty_record :: file_record where
  "empty_record = \<lparr>r_tags = None, r_category = None, r_format = None, r_meta = None, r_file = None,
     r_time = None, r_mtime = None, r_ext = None, r_error = None\<rparr>"

text \<open>A category of the profile. A secondary category has no \<open>basedir\<close> and has a filter.\<close>

record category_def =
  cat_name :: string
  cat_code :: "string option"
  cat_basedir :: "string option"
  cat_taxonomy :: "string list option"
  cat_sort :: jsval
  cat_inherits :: "string option"
  cat_filter :: "file_record \<Rightarrow> bool"

text \<open>What \<open>processTags\<close> returns: \<open>{tags, category, format}\<close>.\<close>

record tag_data =
  td_tags :: "jsval obj"
  td_category :: "jsval obj"
  td_format :: "jsval obj"

text \<open>A playlist as \<open>findPlaylists\<close> returns it; a track is \<open>{file}\<close>.\<close>

record track_ref =
  track_file :: string

record playlist =
  pl_title :: string
  pl_file :: string
  pl_id :: string
  pl_tracks :: "track_ref list"

text \<open>The same playlist with each track replaced by what \<open>state.data\<close> holds for it.\<close>

record resolved_playlist =
  rp_title :: string
  rp_file :: string
  rp_id :: string
  rp_tracks :: "file_record option list"

section \<open>The environment of a run\<close>

text \<open>
  The collaborators of the indexer: the file system (\<open>fs.stat\<close>'s \<open>mtimeMs\<close>,
  \<open>fs.access\<close>), \<open>path.join\<close>, the extension \<open>path.extname(file.toLowerCase()).slice(1)\<close>,
  the tag extractor \<open>processTags\<close>, the clock \<open>Number(new Date())\<close> at the moment a file
  is processed, the glob of \<open>findFiles\<close> and the playlist reader \<open>findPlaylists\<close>.
\<close>

record env =
  fs_stat :: "string \<Rightarrow> js_error + int"
  fs_access :: "string \<Rightarrow> js_error + unit"
  path_join :: "string \<Rightarrow> string \<Rightarrow> string"
  file_ext :: "string \<Rightarrow> string"
  processTags :: "string \<Rightarrow> string \<Rightarrow> string \<Rightarrow> category_def option \<Rightarrow> js_error + tag_data"
  date_now :: "string \<Rightarrow> int"
  fg :: "string \<Rightarrow> string list"
  findPlaylists :: "string \<Rightarrow> js_error + playlist list"

text \<open>\<open>path.join(a, b)\<close> where \<open>b\<close> may be undefined: Node validates every argument.\<close>

definition path_join_arg :: "env \<Rightarrow> string \<Rightarrow> string option \<Rightarrow> js_error + string" where
  "path_join_arg e a b =
     (case b of
        None \<Rightarrow> Inl (TypeError ''The path argument must be of type string. Received undefined'')
      | Some f \<Rightarrow> Inr (path_join e a f))"

text \<open>\<open>String(err)\<close>, which is \<open>Error.prototype.toString\<close>.\<close>

definition error_string :: "js_error \<Rightarrow> string" where
  "error_string err =
     (if err_name err = [] then err_message err
      else if err_message err = [] then err_name err
      else err_name err @ '': '' @ err_message err)"

section \<open>util.js\<close>

definition fileAccessCheck :: "env \<Rightarrow> string \<Rightarrow> js_error + bool" where
  "fileAccessCheck e filepath =
     (case fs_access e filepath of
        Inr u \<Rightarrow> Inr True
      | Inl err \<Rightarrow>
          if err_code err = Some ''ENOENT'' \<or> err_code err = Some ''EACCES'' then Inr False
          else Inl err)"

definition fileExists :: "env \<Rightarrow> string \<Rightarrow> js_error + bool" where
  "fileExists e filepath = fileAccessCheck e filepath"

section \<open>The scan (MusicIndexer)\<close>

text \<open>
  The resolved catalogue of one category, the media library \<open>state.ml\<close> and the state of
  the closure. \<open>calls\<close> is a ghost field: the file paths handed to the extractor, in order.
\<close>

datatype taxnode =
    Branch string jsval bool "(string \<times> taxnode) list"
  | Leaf string jsval bool "(string \<times> file_record) list" "jsval obj option"

record catalogue_entry =
  ce_type :: string
  ce_name :: string
  ce_code :: "string option"
  ce_inherits :: "string option"
  ce_taxonomy :: "string list option"
  ce_sort :: jsval
  ce_items :: "taxnode obj"

record media_library =
  ml_categories :: "catalogue_entry list option"
  ml_playlists :: "playlist list option"

definition empty_ml :: media_library where
  "empty_ml = \<lparr>ml_categories = None, ml_playlists = None\<rparr>"

record state =
  data :: "file_record obj"
  ml :: "media_library option"
  calls :: "string list"

record options =
  forceRefresh :: bool
  printSpeed :: bool

definition findFiles :: "env \<Rightarrow> string \<Rightarrow> string list" where
  "findFiles e musicPath = sort (fg e musicPath)"

definition isFresh :: "env \<Rightarrow> state \<Rightarrow> string \<Rightarrow> string \<Rightarrow> js_error + bool \<times> int" where
  "isFresh e st f filepath =
     (let fdata = (case obj_get (data st) f of None \<Rightarrow> empty_record | Some r \<Rightarrow> r) in
      case fs_stat e filepath of
        Inl err \<Rightarrow> Inl err
      | Inr mtimeMs \<Rightarrow> Inr (r_mtime fdata \<noteq> None \<and> r_mtime fdata = Some mtimeMs, mtimeMs))"

definition getBaseDir :: "string \<Rightarrow> string option" where
  "getBaseDir f =
     (let rel = (if startsWith f ''/'' then drop 1 f else f);
          segments = split rel ''/''
      in case segments of [] \<Rightarrow> None | s # rest \<Rightarrow> Some s)"

definition getCategory :: "string \<Rightarrow> category_def list \<Rightarrow> category_def option" where
  "getCategory f categories =
     (let basedir = getBaseDir f in find (\<lambda>cat. cat_basedir cat = basedir) categories)"

text \<open>
  \<open>processFile\<close> returns the state together with its result or the error it throws: what
  it did to the state before throwing stays done.
\<close>

definition new_record ::
  "env \<Rightarrow> tag_data \<Rightarrow> category_def option \<Rightarrow> string \<Rightarrow> int \<Rightarrow> string \<Rightarrow> file_record" where
  "new_record e td cat f mt ex =
     \<lparr>r_tags = Some (td_tags td), r_category = Some (td_category td),
      r_format = Some (td_format td),
      r_meta = Some (case cat of None \<Rightarrow> None | Some c \<Rightarrow> cat_code c),
      r_file = Some f, r_time = Some (date_now e f), r_mtime = Some mt,
      r_ext = Some ex, r_error = None\<rparr>"

definition processFile ::
  "env \<Rightarrow> string \<Rightarrow> string \<Rightarrow> category_def list \<Rightarrow> options \<Rightarrow> state \<Rightarrow> state \<times> (js_error + bool)" where
  "processFile e musicPath f categories opts st =
     (let filepath = path_join e musicPath f in
      case isFresh e st f filepath of
        Inl err \<Rightarrow> (st, Inl err)
      | Inr fm \<Rightarrow>
          if fst fm \<and> \<not> forceRefresh opts then (st, Inr True)
          else
            (let ex = file_ext e f;
                 cat = getCategory f categories;
                 st1 = st\<lparr>calls := calls st @ [filepath]\<rparr>
             in case processTags e ex f filepath cat of
                  Inl err \<Rightarrow> (st1, Inl err)
                | Inr td \<Rightarrow>
                    (st1\<lparr>data := obj_set (data st1) f (new_record e td cat f (snd fm) ex)\<rparr>,
                     Inr False)))"

text \<open>The record \<open>{error: String(err)}\<close>.\<close>

definition error_record :: "js_error \<Rightarrow> file_record" where
  "error_record err = empty_record\<lparr>r_error := Some (error_string err)\<rparr>"

fun processFiles ::
  "env \<Rightarrow> string \<Rightarrow> string list \<Rightarrow> category_def list \<Rightarrow> options \<Rightarrow> state \<Rightarrow> state" where
  "processFiles e musicPath [] categories opts st = st"
| "processFiles e musicPath (f # files) categories opts st =
     (case processFile e musicPath f categories opts st of
        (st1, Inr res) \<Rightarrow> processFiles e musicPath files categories opts st1
      | (st1, Inl err) \<Rightarrow>
          processFiles e musicPath files categories opts
            (st1\<lparr>data := obj_set (data st1) f (error_record err)\<rparr>))"

text \<open>
  \<open>checkFileExistence\<close> walks the entries \<open>Object.entries(state.data)\<close> taken at its start
  and deletes from the live state.
\<close>

fun checkFileExistence_loop ::
  "env \<Rightarrow> string \<Rightarrow> (string \<times> file_record) list \<Rightarrow> state \<Rightarrow> state \<times> (js_error + unit)" where
  "checkFileExistence_loop e musicPath [] st = (st, Inr ())"
| "checkFileExistence_loop e musicPath ((key, v) # rest) st =
     (case path_join_arg e musicPath (r_file v) of
        Inl err \<Rightarrow> (st, Inl err)
      | Inr filepath \<Rightarrow>
          (case fileExists e filepath of
             Inl err \<Rightarrow> (st, Inl err)
           | Inr ex \<Rightarrow>
               if ex then checkFileExistence_loop e musicPath rest st
               else checkFileExistence_loop e musicPath rest
                      (st\<lparr>data := obj_delete (data st) key\<rparr>)))"

definition checkFileExistence :: "env \<Rightarrow> string \<Rightarrow> state \<Rightarrow> state \<times> (js_error + unit)" where
  "checkFileExistence e musicPath st = checkFileExistence_loop e musicPath (data st) st"

section \<open>Ordering (lodash \<open>orderBy\<close>)\<close>

text \<open>
  The relational operator \<open>a < b\<close> on the values the sort criteria hold: numbers by
  value, strings by character code, \<open>null\<close> and booleans as the numbers they convert to;
  a comparison with \<open>undefined\<close> is false. The coercions between a string and a number,
  and of arrays and objects, are not modelled: such pairs are taken as unordered.
\<close>

fun to_number :: "jsval \<Rightarrow> int option" where
  "to_number (JNum n) = Some n"
| "to_number JNull = Some 0"
| "to_number (JBool b) = Some (if b then 1 else 0)"
| "to_number v = None"

fun js_less :: "jsval \<Rightarrow> jsval \<Rightarrow> bool" where
  "js_less (JStr a) (JStr b) = (a < b)"
| "js_less a b =
     (case (to_number a, to_number b) of (Some x, Some y) \<Rightarrow> x < y | other \<Rightarrow> False)"

text \<open>
  lodash's \<open>compareAscending\<close>: \<open>1\<close>, \<open>-1\<close> or \<open>0\<close>; \<open>null\<close> sorts after every other
  defined value and \<open>undefined\<close> after \<open>null\<close>.
\<close>

definition compareAscending :: "jsval \<Rightarrow> jsval \<Rightarrow> int" where
  "compareAscending v other =
     (if v \<noteq> other then
        (let valIsDefined = (v \<noteq> JUndefined); valIsNull = (v = JNull);
             othIsDefined = (other \<noteq> JUndefined); othIsNull = (other = JNull)
         in if (\<not> othIsNull \<and> js_less other v) \<or> (valIsNull \<and> othIsDefined) \<or> \<not> valIsDefined
            then 1
            else if (\<not> valIsNull \<and> js_less v other) \<or> (othIsNull \<and> valIsDefined) \<or> \<not> othIsDefined
            then - 1
            else 0)
      else 0)"

text \<open>
  \<open>compareMultiple\<close> with every order \<open>asc\<close>: the first criterion that differs decides;
  a tie falls to the positions in the input, which the stable insertion below keeps.
\<close>

fun compareMultiple :: "jsval list \<Rightarrow> jsval list \<Rightarrow> int" where
  "compareMultiple (a # as) (b # bs) =
     (let r = compareAscending a b in if r \<noteq> 0 then r else compareMultiple as bs)"
| "compareMultiple as bs = 0"

fun insert_by :: "('a \<Rightarrow> jsval list) \<Rightarrow> 'a \<Rightarrow> 'a list \<Rightarrow> 'a list" where
  "insert_by crit x [] = [x]"
| "insert_by crit x (y # ys) =
     (if compareMultiple (crit x) (crit y) \<le> 0 then x # y # ys else y # insert_by crit x ys)"

definition orderBy :: "'a list \<Rightarrow> ('a \<Rightarrow> jsval list) \<Rightarrow> 'a list" where
  "orderBy collection crit = foldr (insert_by crit) collection []"

section \<open>The taxonomy builder\<close>

definition NONE :: string where
  "NONE = ''__NONE__''"

text \<open>\<open>v[k]\<close> for a value \<open>v\<close> and a property name that is neither an index nor \<open>length\<close>.\<close>

fun js_get :: "jsval \<Rightarrow> string \<Rightarrow> jsval" where
  "js_get (JObj ob) k = get_prop ob k"
| "js_get v k = JUndefined"

text \<open>The paths \<open>1.tags.disk.no\<close>, \<open>1.tags.track.no\<close>, \<open>1.file\<close> and \<open>1.tags.title\<close> of an entry.\<close>

definition tags_get :: "file_record \<Rightarrow> string \<Rightarrow> jsval" where
  "tags_get r k = (case r_tags r of None \<Rightarrow> JUndefined | Some t \<Rightarrow> get_prop t k)"

definition album_criteria :: "string \<times> file_record \<Rightarrow> jsval list" where
  "album_criteria en =
     [js_get (tags_get (snd en) ''disk'') ''no'',
      js_get (tags_get (snd en) ''track'') ''no'',
      (case r_file (snd en) of None \<Rightarrow> JUndefined | Some f \<Rightarrow> JStr f),
      tags_get (snd en) ''title'']"

definition sortAlbumFiles :: "file_record obj \<Rightarrow> file_record obj" where
  "sortAlbumFiles dataFiles = fromEntries (orderBy dataFiles album_criteria)"

definition sortTaxonomyItems :: "'v obj \<Rightarrow> 'v obj" where
  "sortTaxonomyItems collectionItems =
     fromEntries (orderBy collectionItems (\<lambda>en. [JStr (fst en)]))"

fun getTaxonomyValue_loop :: "jsval obj \<Rightarrow> string list \<Rightarrow> jsval" where
  "getTaxonomyValue_loop t [] = JStr NONE"
| "getTaxonomyValue_loop t (keyItem # keyItems) =
     (let v = get_prop t keyItem; isArr = isArray v
      in if (\<not> isArr \<and> truthy v) \<or> (isArr \<and> truthy (elem0 v))
         then (if isArr then elem0 v else v)
         else getTaxonomyValue_loop t keyItems)"

definition getTaxonomyValue :: "jsval obj \<Rightarrow> string \<Rightarrow> jsval" where
  "getTaxonomyValue t k = getTaxonomyValue_loop t (split k ''__or__'')"

text \<open>\<open>{...file.tags, ...file.category}\<close>; spreading \<open>undefined\<close> adds nothing.\<close>

definition all_tags :: "file_record \<Rightarrow> jsval obj" where
  "all_tags r =
     obj_spread (case r_tags r of None \<Rightarrow> [] | Some t \<Rightarrow> t)
                (case r_category r of None \<Rightarrow> [] | Some c \<Rightarrow> c)"

text \<open>
  The first loop of \<open>collectMediaLibraryTaxonomy\<close>: the files are put into the node of
  their taxonomy value, which is created at its first file. A node is held here as its
  \<open>data\<close> and its \<open>items\<close>.
\<close>

definition collect_step ::
  "string \<Rightarrow> (jsval \<times> file_record obj) obj \<Rightarrow> string \<times> file_record \<Rightarrow> (jsval \<times> file_record obj) obj" where
  "collect_step taxKey its en =
     (let taxData = getTaxonomyValue (all_tags (snd en)) taxKey;
          k = js_toString taxData
      in case obj_get its k of
           None \<Rightarrow> obj_set its k (taxData, obj_set [] (fst en) (snd en))
         | Some nd \<Rightarrow> obj_set its k (fst nd, obj_set (snd nd) (fst en) (snd en)))"

definition collect_groups :: "file_record obj \<Rightarrow> string \<Rightarrow> (jsval \<times> file_record obj) obj" where
  "collect_groups dataFiles taxKey = foldl (collect_step taxKey) [] dataFiles"

text \<open>\<open>omit(ob, names)\<close>.\<close>

definition omit :: "'v obj \<Rightarrow> string list \<Rightarrow> 'v obj" where
  "omit ob names = filter (\<lambda>en. fst en \<notin> set names) ob"

text \<open>The end node made of a group: its files sorted, and the tags of the first of them.\<close>

definition end_node :: "string \<Rightarrow> jsval \<times> file_record obj \<Rightarrow> taxnode" where
  "end_node taxKey nd =
     (let its = sortAlbumFiles (snd nd) in
      Leaf taxKey (fst nd) (fst nd = JStr NONE) its
        (case its of
           [] \<Rightarrow> None
         | (firstFile, firstItem) # rest \<Rightarrow>
             if firstFile \<noteq> [] then Some (omit (all_tags firstItem) [''title'', ''track'', ''disk''])
             else None))"

fun collectMediaLibraryTaxonomy :: "file_record obj \<Rightarrow> string \<Rightarrow> string list \<Rightarrow> taxnode obj" where
  "collectMediaLibraryTaxonomy dataFiles taxKey [] =
     map (\<lambda>en. (fst en, end_node taxKey (snd en))) (collect_groups dataFiles taxKey)"
| "collectMediaLibraryTaxonomy dataFiles taxKey (k # remainingTaxKeys) =
     map (\<lambda>en. (fst en,
            Branch taxKey (fst (snd en)) (fst (snd en) = JStr NONE)
              (sortTaxonomyItems (collectMediaLibraryTaxonomy (snd (snd en)) k remainingTaxKeys))))
         (collect_groups dataFiles taxKey)"

section \<open>The category deriver\<close>

text \<open>
  \<open>compactObject\<close> over entries whose value is a node or \<open>null\<close> (\<open>None\<close>): the entries
  with a node are kept.
\<close>

definition compactObject :: "'v option obj \<Rightarrow> 'v obj" where
  "compactObject ob =
     fromEntries (List.map_filter (\<lambda>en. case snd en of None \<Rightarrow> None | Some v \<Rightarrow> Some (fst en, v)) ob)"

text \<open>
  The value \<open>filterMediaLibraryTaxonomy\<close> returns. Each entry is filtered to a node or to
  \<open>null\<close>, then the object is compacted.
\<close>

fun filter_node :: "(file_record \<Rightarrow> bool) \<Rightarrow> taxnode \<Rightarrow> taxnode option" where
  "filter_node filterFunction (Leaf k d n its t) =
     (let fileEntries = filter (\<lambda>en. filterFunction (snd en)) its
      in if length fileEntries = 0 then None else Some (Leaf k d n (fromEntries fileEntries) t))"
| "filter_node filterFunction (Branch k d n its) =
     (let its' = compactObject (map (\<lambda>en. (fst en, filter_node filterFunction (snd en))) its)
      in if length (obj_keys its') = 0 then None else Some (Branch k d n its'))"

definition filterMediaLibraryTaxonomy :: "taxnode obj \<Rightarrow> (file_record \<Rightarrow> bool) \<Rightarrow> taxnode obj" where
  "filterMediaLibraryTaxonomy its filterFunction =
     compactObject (map (\<lambda>en. (fst en, filter_node filterFunction (snd en))) its)"

section \<open>Cataloguing and playlists\<close>

definition getCategoryFiles :: "category_def \<Rightarrow> file_record obj \<Rightarrow> file_record obj" where
  "getCategoryFiles cat dataFiles =
     fromEntries
       (filter (\<lambda>en. (case r_meta (snd en) of None \<Rightarrow> None | Some c \<Rightarrow> c) = cat_code cat) dataFiles)"

text \<open>\<open>cat.basedir\<close> as a condition.\<close>

definition has_basedir :: "category_def \<Rightarrow> bool" where
  "has_basedir cat = (case cat_basedir cat of None \<Rightarrow> False | Some b \<Rightarrow> b \<noteq> [])"

definition primary_entry :: "file_record obj \<Rightarrow> category_def \<Rightarrow> catalogue_entry option" where
  "primary_entry dataFiles cat =
     (case cat_taxonomy cat of
        None \<Rightarrow> None
      | Some [] \<Rightarrow> None
      | Some (k # taxKeys) \<Rightarrow>
          Some \<lparr>ce_type = ''primary'', ce_name = cat_name cat, ce_code = cat_code cat,
                ce_inherits = None, ce_taxonomy = cat_taxonomy cat, ce_sort = cat_sort cat,
                ce_items = collectMediaLibraryTaxonomy (getCategoryFiles cat dataFiles) k taxKeys\<rparr>)"

text \<open>
  \<open>cloneDeep\<close> gives a value equal to its argument; the objects the copy is made of are
  told apart from the original's in the store model further down.
\<close>

definition cloneDeep :: "'a \<Rightarrow> 'a" where
  "cloneDeep v = v"

definition secondary_entry :: "catalogue_entry list \<Rightarrow> category_def \<Rightarrow> catalogue_entry option" where
  "secondary_entry primaryCategories cat =
     (case find (\<lambda>pCat. ce_code pCat = cat_inherits cat) primaryCategories of
        None \<Rightarrow> None
      | Some baseCategory \<Rightarrow>
          Some \<lparr>ce_type = ''secondary'', ce_name = cat_name cat,
                ce_code = (case cat_code cat of None \<Rightarrow> ce_code baseCategory | Some c \<Rightarrow> Some c),
                ce_inherits = cat_inherits cat,
                ce_taxonomy = (case cat_taxonomy cat of None \<Rightarrow> ce_taxonomy baseCategory
                               | Some t \<Rightarrow> Some t),
                ce_sort = (if cat_sort cat = JUndefined then ce_sort baseCategory else cat_sort cat),
                ce_items = filterMediaLibraryTaxonomy (cloneDeep (ce_items baseCategory)) (cat_filter cat)\<rparr>)"

definition catalogueMediaLibrary :: "category_def list \<Rightarrow> state \<Rightarrow> state" where
  "catalogueMediaLibrary categories st =
     (let primaryCategories = List.map_filter (primary_entry (data st)) (filter has_basedir categories);
          secondaryCategories =
            List.map_filter (secondary_entry primaryCategories)
              (filter (\<lambda>cat. \<not> has_basedir cat) categories);
          m = (case ml st of None \<Rightarrow> empty_ml | Some m \<Rightarrow> m)
      in st\<lparr>ml := Some (m\<lparr>ml_categories := Some (primaryCategories @ secondaryCategories)\<rparr>)\<rparr>)"

text \<open>
  \<open>importPlaylists\<close>: \<open>pl\<close> holds the playlists with their tracks looked up in
  \<open>state.data\<close>; the object stored in \<open>state.ml\<close> is built from \<open>playlists\<close>.
\<close>

definition resolve_tracks :: "state \<Rightarrow> playlist \<Rightarrow> resolved_playlist" where
  "resolve_tracks st p =
     \<lparr>rp_title = pl_title p, rp_file = pl_file p, rp_id = pl_id p,
      rp_tracks = map (\<lambda>track. obj_get (data st) (track_file track)) (pl_tracks p)\<rparr>"

definition importPlaylists :: "env \<Rightarrow> string \<Rightarrow> state \<Rightarrow> state \<times> (js_error + unit)" where
  "importPlaylists e waPath st =
     (case findPlaylists e waPath of
        Inl err \<Rightarrow> (st, Inl err)
      | Inr playlists \<Rightarrow>
          (let pl = map (resolve_tracks st) playlists;
               m = (case ml st of None \<Rightarrow> empty_ml | Some m \<Rightarrow> m)
           in (st\<lparr>ml := Some (m\<lparr>ml_playlists := Some playlists\<rparr>)\<rparr>, Inr ())))"

section \<open>A run of the indexer\<close>

text \<open>
  The two persisted artifacts, each behind its own path, and the arguments the indexer is
  made with. Writing a cache file is taken to succeed.
\<close>

record disk =
  file_caches :: "file_record obj cache_fs"
  ml_caches :: "media_library option cache_fs"

record config =
  fileCachePath :: string
  mlCachePath :: string
  waPath :: string

text \<open>The block of \<open>indexPath\<close> under \<open>if (!onlyProfile)\<close>.\<close>

definition indexPath_scan ::
  "env \<Rightarrow> config \<Rightarrow> string \<Rightarrow> category_def list \<Rightarrow> options \<Rightarrow> state \<times> disk \<Rightarrow>
   (state \<times> disk) \<times> (js_error + unit)" where
  "indexPath_scan e cfg musicPath categories opts sd =
     (let files = findFiles e musicPath;
          st1 = processFiles e musicPath files categories opts (fst sd)
      in case checkFileExistence e musicPath st1 of
           (st2, Inl err) \<Rightarrow> ((st2, snd sd), Inl err)
         | (st2, Inr u) \<Rightarrow>
             ((st2, (snd sd)\<lparr>file_caches :=
                      writeCache (file_caches (snd sd)) (fileCachePath cfg) (data st2)\<rparr>),
              Inr ()))"

definition indexPath ::
  "env \<Rightarrow> config \<Rightarrow> string \<Rightarrow> category_def list \<Rightarrow> options \<Rightarrow> bool \<Rightarrow> state \<times> disk \<Rightarrow>
   (state \<times> disk) \<times> (js_error + unit)" where
  "indexPath e cfg musicPath categories opts onlyProfile sd =
     (case readCache (file_caches (snd sd)) (fileCachePath cfg) of
        Inl err \<Rightarrow> (sd, Inl err)
      | Inr cached \<Rightarrow>
          (let sd1 = ((fst sd)\<lparr>data := cached\<rparr>, snd sd) in
           case (if \<not> onlyProfile then indexPath_scan e cfg musicPath categories opts sd1
                 else (sd1, Inr ())) of
             (sd2, Inl err) \<Rightarrow> (sd2, Inl err)
           | (sd2, Inr u) \<Rightarrow>
               (case importPlaylists e (waPath cfg) (catalogueMediaLibrary categories (fst sd2)) of
                  (st3, Inl err) \<Rightarrow> ((st3, snd sd2), Inl err)
                | (st3, Inr u) \<Rightarrow>
                    ((st3, (snd sd2)\<lparr>ml_caches :=
                             writeCache (ml_caches (snd sd2)) (mlCachePath cfg) (ml st3)\<rparr>),
                     Inr ()))))"


section \<open>The grouping value, in the words of the specification\<close>

text \<open>
  The value an attribute contributes: the first element of an ordered sequence, the value
  itself otherwise. A value is non-empty when the program takes it as true: not
  \<open>undefined\<close>, \<open>null\<close>, \<open>false\<close>, \<open>0\<close> or the empty string.
\<close>

definition contributed :: "jsval obj \<Rightarrow> string \<Rightarrow> jsval" where
  "contributed t a = (if isArray (get_prop t a) then elem0 (get_prop t a) else get_prop t a)"

text \<open>
  The first ranked attribute that holds a non-empty value gives the grouping value; the
  ungrouped sentinel is used when there is none.
\<close>

definition spec_groupValue :: "jsval obj \<Rightarrow> string list \<Rightarrow> jsval" where
  "spec_groupValue t ranked =
     (case find (\<lambda>a. truthy (contributed t a)) ranked of
        None \<Rightarrow> JStr NONE
      | Some a \<Rightarrow> contributed t a)"


section \<open>Nodes that are not empty\<close>

text \<open>
  A leaf with at least one member; a branch with at least one child, all of whose
  children are themselves not empty.
\<close>

fun nonempty_node :: "taxnode \<Rightarrow> bool" where
  "nonempty_node (Leaf k d n its t) = (its \<noteq> [])"
| "nonempty_node (Branch k d n its) =
     (its \<noteq> [] \<and> list_all (\<lambda>en. nonempty_node (snd en)) its)"

text \<open>The predicate rejects every member of every leaf of the node.\<close>

fun rejects_all :: "(file_record \<Rightarrow> bool) \<Rightarrow> taxnode \<Rightarrow> bool" where
  "rejects_all f (Leaf k d n its t) = list_all (\<lambda>en. \<not> f (snd en)) its"
| "rejects_all f (Branch k d n its) = list_all (\<lambda>en. rejects_all f (snd en)) its"

section \<open>Notions about the scan\<close>

text \<open>The freshness test of \<open>isFresh\<close> on a record mapping, for a file and its current \<open>mtimeMs\<close>.\<close>

definition is_fresh_in :: "file_record obj \<Rightarrow> string \<Rightarrow> int \<Rightarrow> bool" where
  "is_fresh_in d f m = (case obj_get d f of None \<Rightarrow> False | Some r \<Rightarrow> r_mtime r = Some m)"

text \<open>One turn of the loop of \<open>processFiles\<close>: the \<open>try\<close> and its \<open>catch\<close>.\<close>

definition processFiles_step ::
  "env \<Rightarrow> string \<Rightarrow> category_def list \<Rightarrow> options \<Rightarrow> string \<Rightarrow> state \<Rightarrow> state" where
  "processFiles_step e mp cats opts f st =
     (case processFile e mp f cats opts st of
        (st1, Inr res) \<Rightarrow> st1
      | (st1, Inl err) \<Rightarrow> st1\<lparr>data := obj_set (data st1) f (error_record err)\<rparr>)"

text \<open>The file is not skipped as fresh: the refresh is forced, or the test fails.\<close>

definition not_skipped :: "options \<Rightarrow> file_record obj \<Rightarrow> string \<Rightarrow> int \<Rightarrow> bool" where
  "not_skipped opts d f m = (forceRefresh opts \<or> \<not> is_fresh_in d f m)"








section \<open>The orders of the taxonomy, in the words of the specification\<close>

text \<open>
  Sibling groups: the group values that are array indices come first, in ascending
  numeric order, and the other group values follow in ascending order of their literal
  form.
\<close>

definition sibling_order :: "string list \<Rightarrow> bool" where
  "sibling_order ks =
     (ks = filter is_array_index ks @ filter (\<lambda>k. \<not> is_array_index k) ks \<and>
      sorted (map dec_val (filter is_array_index ks)) \<and>
      sorted (filter (\<lambda>k. \<not> is_array_index k) ks))"

text \<open>Every branch of a node, at any depth, has its children in that order.\<close>

fun siblings_sorted :: "taxnode \<Rightarrow> bool" where
  "siblings_sorted (Leaf k d n its t) = True"
| "siblings_sorted (Branch k d n its) =
     (sibling_order (obj_keys its) \<and> list_all (\<lambda>en. siblings_sorted (snd en)) its)"

text \<open>
  Leaf members: container index, then item index, then path, then display title, all
  ascending. A number or a string ranks before \<open>null\<close>, and \<open>null\<close> before a missing
  value.
\<close>

fun num_rank :: "jsval \<Rightarrow> nat \<times> int" where
  "num_rank (JNum n) = (0, n)"
| "num_rank JNull = (1, 0)"
| "num_rank v = (2, 0)"

fun str_rank :: "jsval \<Rightarrow> nat \<times> string" where
  "str_rank (JStr s) = (0, s)"
| "str_rank JNull = (1, [])"
| "str_rank v = (2, [])"

definition container_index :: "file_record \<Rightarrow> jsval" where
  "container_index r = js_get (tags_get r ''disk'') ''no''"

definition item_index :: "file_record \<Rightarrow> jsval" where
  "item_index r = js_get (tags_get r ''track'') ''no''"

definition record_path :: "file_record \<Rightarrow> jsval" where
  "record_path r = (case r_file r of None \<Rightarrow> JUndefined | Some f \<Rightarrow> JStr f)"

definition display_title :: "file_record \<Rightarrow> jsval" where
  "display_title r = tags_get r ''title''"

definition leaf_key ::
  "string \<times> file_record \<Rightarrow> (nat \<times> int) \<times> (nat \<times> int) \<times> (nat \<times> string) \<times> (nat \<times> string)" where
  "leaf_key en =
     (num_rank (container_index (snd en)), num_rank (item_index (snd en)),
      str_rank (record_path (snd en)), str_rank (display_title (snd en)))"

text \<open>
  The records the leaf order is stated for: the two indices are numbers, \<open>null\<close> or
  missing, and the path and the title are strings, \<open>null\<close> or missing.
\<close>

fun is_num :: "jsval \<Rightarrow> bool" where
  "is_num (JNum n) = True"
| "is_num JNull = True"
| "is_num JUndefined = True"
| "is_num v = False"

fun is_str :: "jsval \<Rightarrow> bool" where
  "is_str (JStr s) = True"
| "is_str JNull = True"
| "is_str JUndefined = True"
| "is_str v = False"

definition album_typed :: "file_record \<Rightarrow> bool" where
  "album_typed r =
     (is_num (container_index r) \<and> is_num (item_index r) \<and>
      is_str (record_path r) \<and> is_str (display_title r))"

text \<open>An entry under a file path: the key is not empty and not an array index.\<close>

definition path_entry :: "string \<times> file_record \<Rightarrow> bool" where
  "path_entry en = (fst en \<noteq> [] \<and> \<not> is_array_index (fst en) \<and> album_typed (snd en))"

text \<open>
  Every leaf of a node has its members in the leaf order, and its representative
  attributes are those of its first member without title, track and disk.
\<close>

fun leaves_ordered :: "taxnode \<Rightarrow> bool" where
  "leaves_ordered (Leaf k d n its t) =
     (sorted (map leaf_key its) \<and>
      t = (case its of
             [] \<Rightarrow> None
           | en # rest \<Rightarrow> Some (omit (all_tags (snd en)) [''title'', ''track'', ''disk''])))"
| "leaves_ordered (Branch k d n its) = list_all (\<lambda>en. leaves_ordered (snd en)) its"

text \<open>The sibling order once more, by recursion on the list of keys.\<close>

fun sibling_order_rec :: "string list \<Rightarrow> bool" where
  "sibling_order_rec [] = True"
| "sibling_order_rec (k # ks) =
     ((if is_array_index k
       then list_all (\<lambda>a. is_array_index a \<longrightarrow> dec_val k \<le> dec_val a) ks
       else list_all (\<lambda>a. \<not> is_array_index a \<and> k \<le> a) ks)
      \<and> sibling_order_rec ks)"

text \<open>
  The root level. The groups lie in the key order of the object that holds them: the
  group values that are array indices come first, in ascending numeric order, and the
  other group values follow in the order in which their groups are made, which is the
  order in which the values are first met among the records.
\<close>

definition first_seen :: "string list \<Rightarrow> string list" where
  "first_seen gs = foldl (\<lambda>acc g. if g \<in> set acc then acc else acc @ [g]) [] gs"

definition group_values :: "file_record obj \<Rightarrow> string \<Rightarrow> string list" where
  "group_values dataFiles taxKey =
     map (\<lambda>en. js_toString (getTaxonomyValue (all_tags (snd en)) taxKey)) dataFiles"

definition root_order :: "string list \<Rightarrow> string list \<Rightarrow> bool" where
  "root_order gs ks =
     (ks = filter is_array_index ks @ filter (\<lambda>k. \<not> is_array_index k) ks \<and>
      sorted (map dec_val (filter is_array_index ks)) \<and>
      filter (\<lambda>k. \<not> is_array_index k) ks = filter (\<lambda>k. \<not> is_array_index k) (first_seen gs) \<and>
      set ks = set gs \<and> distinct ks)"

text \<open>The first two parts of the root order, by recursion on the list of keys.\<close>

fun own_order_rec :: "string list \<Rightarrow> bool" where
  "own_order_rec [] = True"
| "own_order_rec (k # ks) =
     ((if is_array_index k
       then list_all (\<lambda>a. is_array_index a \<longrightarrow> dec_val k \<le> dec_val a) ks
       else list_all (\<lambda>a. \<not> is_array_index a) ks)
      \<and> own_order_rec ks)"

section \<open>The store: objects that are shared and changed in place\<close>

text \<open>
  \<open>filterMediaLibraryTaxonomy\<close> assigns to \<open>item.items\<close> and to \<open>items[key]\<close>: it
  changes the objects it is given. To tell the tree of a primary category from the copy
  that is filtered, the nodes, the \<open>items\<close> objects and the file records are held in a
  store, at addresses; an address is an index into the store and a new object is put at
  its end. A property of an \<open>items\<close> object holds a reference or \<open>null\<close>. Attribute values
  are never assigned to and stay values.
\<close>

datatype hval = HNull | HRef nat

datatype hobj =
    HMap "(string \<times> hval) list"
  | HNode string jsval bool bool nat "jsval obj option"
  | HFile file_record

type_synonym store = "hobj list"

definition alloc :: "store \<Rightarrow> hobj \<Rightarrow> store \<times> nat" where
  "alloc h ob = (h @ [ob], length h)"

text \<open>The addresses an object refers to.\<close>

fun refs :: "hobj \<Rightarrow> nat list" where
  "refs (HMap es) = concat (map (\<lambda>en. case snd en of HNull \<Rightarrow> [] | HRef b \<Rightarrow> [b]) es)"
| "refs (HNode k d n e its t) = [its]"
| "refs (HFile r) = []"

text \<open>
  \<open>cloneDeep\<close> on the store: every object reached from the address is copied to a new
  object. The tree the builder makes holds each object once, so no object is reached
  twice and the copy has as many objects as the tree. The fuel bounds the depth; \<open>None\<close>
  is a dangling address or no fuel left.
\<close>

fun clone_entries ::
  "(store \<Rightarrow> nat \<Rightarrow> (store \<times> nat) option) \<Rightarrow> store \<Rightarrow> (string \<times> hval) list \<Rightarrow>
   (store \<times> (string \<times> hval) list) option" where
  "clone_entries c h [] = Some (h, [])"
| "clone_entries c h ((k, v) # es) =
     (case v of
        HNull \<Rightarrow>
          (case clone_entries c h es of
             None \<Rightarrow> None
           | Some (h1, es1) \<Rightarrow> Some (h1, (k, HNull) # es1))
      | HRef b \<Rightarrow>
          (case c h b of
             None \<Rightarrow> None
           | Some (h1, b1) \<Rightarrow>
               (case clone_entries c h1 es of
                  None \<Rightarrow> None
                | Some (h2, es1) \<Rightarrow> Some (h2, (k, HRef b1) # es1))))"

primrec cloneDeep_store :: "nat \<Rightarrow> store \<Rightarrow> nat \<Rightarrow> (store \<times> nat) option" where
  "cloneDeep_store 0 h a = None"
| "cloneDeep_store (Suc fuel) h a =
     (if a < length h then
        (case h ! a of
           HFile r \<Rightarrow> Some (alloc h (HFile r))
         | HNode k d n e its t \<Rightarrow>
             (case cloneDeep_store fuel h its of
                None \<Rightarrow> None
              | Some (h1, its1) \<Rightarrow> Some (alloc h1 (HNode k d n e its1 t)))
         | HMap es \<Rightarrow>
             (case clone_entries (cloneDeep_store fuel) h es of
                None \<Rightarrow> None
              | Some (h1, es1) \<Rightarrow> Some (alloc h1 (HMap es1))))
      else None)"

text \<open>Reading an \<open>items\<close> object and a file, and the two assignments of the filter.\<close>

definition map_entries :: "store \<Rightarrow> nat \<Rightarrow> (string \<times> hval) list option" where
  "map_entries h a =
     (if a < length h then (case h ! a of HMap es \<Rightarrow> Some es | other \<Rightarrow> None) else None)"

definition file_at :: "store \<Rightarrow> hval \<Rightarrow> file_record option" where
  "file_at h v =
     (case v of
        HNull \<Rightarrow> None
      | HRef b \<Rightarrow> if b < length h then (case h ! b of HFile r \<Rightarrow> Some r | other \<Rightarrow> None) else None)"

text \<open>\<open>item.items = v\<close>.\<close>

definition set_items :: "store \<Rightarrow> nat \<Rightarrow> nat \<Rightarrow> store" where
  "set_items h b v =
     (case h ! b of HNode k d n e its t \<Rightarrow> h[b := HNode k d n e v t] | other \<Rightarrow> h)"

text \<open>\<open>items[key] = null\<close>.\<close>

definition set_null :: "store \<Rightarrow> nat \<Rightarrow> string \<Rightarrow> store" where
  "set_null h a key =
     (case h ! a of HMap es \<Rightarrow> h[a := HMap (obj_set es key HNull)] | other \<Rightarrow> h)"

text \<open>\<open>Object.entries(item.items).filter(([key, file]) => filterFunction(file))\<close>.\<close>

fun filter_files ::
  "(file_record \<Rightarrow> bool) \<Rightarrow> store \<Rightarrow> (string \<times> hval) list \<Rightarrow> (string \<times> hval) list option" where
  "filter_files f h [] = Some []"
| "filter_files f h ((k, v) # es) =
     (case file_at h v of
        None \<Rightarrow> None
      | Some r \<Rightarrow>
          (case filter_files f h es of
             None \<Rightarrow> None
           | Some es' \<Rightarrow> Some (if f r then (k, v) # es' else es')))"

text \<open>
  The body of the loop of \<open>filterMediaLibraryTaxonomy\<close> for the entry \<open>[key, item]\<close> of
  the object at \<open>a\<close>; \<open>recurse\<close> is the call of the function on \<open>item.items\<close>. \<open>None\<close>
  stands for the \<open>TypeError\<close> on a store that is not a tree of nodes, and for no fuel.
\<close>

definition filter_item ::
  "(store \<Rightarrow> nat \<Rightarrow> (store \<times> nat) option) \<Rightarrow> (file_record \<Rightarrow> bool) \<Rightarrow> nat \<Rightarrow> string \<Rightarrow> hval \<Rightarrow>
   store \<Rightarrow> store option" where
  "filter_item recurse f a key item h =
     (case item of
        HNull \<Rightarrow> None
      | HRef b \<Rightarrow>
          if b < length h then
            (case h ! b of
               HNode k d n e its t \<Rightarrow>
                 if e then
                   (case map_entries h its of
                      None \<Rightarrow> None
                    | Some fes \<Rightarrow>
                        (case filter_files f h fes of
                           None \<Rightarrow> None
                         | Some fileEntries \<Rightarrow>
                             (let h1 = fst (alloc h (HMap (fromEntries fileEntries)));
                                  h2 = set_items h1 b (snd (alloc h (HMap (fromEntries fileEntries))))
                              in Some (if length fileEntries = 0 then set_null h2 a key else h2))))
                 else
                   (case recurse h its of
                      None \<Rightarrow> None
                    | Some hr \<Rightarrow>
                        (let h2 = set_items (fst hr) b (snd hr) in
                         case map_entries h2 (snd hr) of
                           None \<Rightarrow> None
                         | Some res \<Rightarrow>
                             Some (if length (obj_keys res) = 0 then set_null h2 a key else h2)))
             | other \<Rightarrow> None)
          else None)"

fun filter_loop ::
  "(store \<Rightarrow> nat \<Rightarrow> (store \<times> nat) option) \<Rightarrow> (file_record \<Rightarrow> bool) \<Rightarrow> nat \<Rightarrow>
   (string \<times> hval) list \<Rightarrow> store \<Rightarrow> store option" where
  "filter_loop recurse f a [] h = Some h"
| "filter_loop recurse f a ((key, item) # es) h =
     (case filter_item recurse f a key item h of
        None \<Rightarrow> None
      | Some h1 \<Rightarrow> filter_loop recurse f a es h1)"

text \<open>\<open>compactObject(items)\<close> on the store: a new object with the entries that are not \<open>null\<close>.\<close>

definition compact_store :: "store \<Rightarrow> nat \<Rightarrow> (store \<times> nat) option" where
  "compact_store h a =
     (case map_entries h a of
        None \<Rightarrow> None
      | Some es \<Rightarrow> Some (alloc h (HMap (fromEntries (filter (\<lambda>en. snd en \<noteq> HNull) es)))))"

primrec filter_store ::
  "nat \<Rightarrow> (file_record \<Rightarrow> bool) \<Rightarrow> store \<Rightarrow> nat \<Rightarrow> (store \<times> nat) option" where
  "filter_store 0 f h a = None"
| "filter_store (Suc fuel) f h a =
     (case map_entries h a of
        None \<Rightarrow> None
      | Some es \<Rightarrow>
          (case filter_loop (filter_store fuel f) f a es h of
             None \<Rightarrow> None
           | Some h1 \<Rightarrow> compact_store h1 a))"

text \<open>
  The \<open>items\<close> of a secondary category, as \<open>catalogueMediaLibrary\<close> makes them:
  \<open>filterMediaLibraryTaxonomy(cloneDeep(baseCategory.items), cat.filter)\<close>.
\<close>

definition derive_store ::
  "nat \<Rightarrow> (file_record \<Rightarrow> bool) \<Rightarrow> store \<Rightarrow> nat \<Rightarrow> (store \<times> nat) option" where
  "derive_store fuel f h a =
     (case cloneDeep_store fuel h a of
        None \<Rightarrow> None
      | Some hc \<Rightarrow> filter_store fuel f (fst hc) (snd hc))"

text \<open>
  Putting a tree into the store and reading it back. \<open>store_items\<close> makes the objects
  of a tree as the builder does: one object for each file, each node and each \<open>items\<close>.
\<close>

fun store_files :: "store \<Rightarrow> file_record obj \<Rightarrow> store \<times> (string \<times> hval) list" where
  "store_files h [] = (h, [])"
| "store_files h ((k, r) # rest) =
     (let es = store_files (fst (alloc h (HFile r))) rest
      in (fst es, (k, HRef (length h)) # snd es))"

fun store_node :: "store \<Rightarrow> taxnode \<Rightarrow> store \<times> nat"
  and store_nodes :: "store \<Rightarrow> (string \<times> taxnode) list \<Rightarrow> store \<times> (string \<times> hval) list" where
  "store_node h (Leaf k d n its t) =
     (let es = store_files h its;
          m = alloc (fst es) (HMap (snd es))
      in alloc (fst m) (HNode k d n True (snd m) t))"
| "store_node h (Branch k d n its) =
     (let es = store_nodes h its;
          m = alloc (fst es) (HMap (snd es))
      in alloc (fst m) (HNode k d n False (snd m) None))"
| "store_nodes h [] = (h, [])"
| "store_nodes h (en # rest) =
     (let b = store_node h (snd en);
          es = store_nodes (fst b) rest
      in (fst es, (fst en, HRef (snd b)) # snd es))"

definition store_items :: "store \<Rightarrow> taxnode obj \<Rightarrow> store \<times> nat" where
  "store_items h its = (let es = store_nodes h its in alloc (fst es) (HMap (snd es)))"

fun load_files :: "store \<Rightarrow> (string \<times> hval) list \<Rightarrow> file_record obj option" where
  "load_files h [] = Some []"
| "load_files h ((k, v) # es) =
     (case file_at h v of
        None \<Rightarrow> None
      | Some r \<Rightarrow> (case load_files h es of None \<Rightarrow> None | Some rest \<Rightarrow> Some ((k, r) # rest)))"

fun load_entries ::
  "(nat \<Rightarrow> taxnode option) \<Rightarrow> (string \<times> hval) list \<Rightarrow> taxnode obj option" where
  "load_entries ld [] = Some []"
| "load_entries ld ((k, v) # es) =
     (case v of
        HNull \<Rightarrow> None
      | HRef b \<Rightarrow>
          (case ld b of
             None \<Rightarrow> None
           | Some nd \<Rightarrow>
               (case load_entries ld es of None \<Rightarrow> None | Some rest \<Rightarrow> Some ((k, nd) # rest))))"

primrec load_node :: "nat \<Rightarrow> store \<Rightarrow> nat \<Rightarrow> taxnode option" where
  "load_node 0 h b = None"
| "load_node (Suc fuel) h b =
     (if b < length h then
        (case h ! b of
           HNode k d n e its t \<Rightarrow>
             (case map_entries h its of
                None \<Rightarrow> None
              | Some es \<Rightarrow>
                  if e then
                    (case load_files h es of None \<Rightarrow> None | Some fs \<Rightarrow> Some (Leaf k d n fs t))
                  else
                    (case load_entries (load_node fuel h) es of
                       None \<Rightarrow> None
                     | Some cs \<Rightarrow> Some (Branch k d n cs)))
         | other \<Rightarrow> None)
      else None)"

definition load_items :: "nat \<Rightarrow> store \<Rightarrow> nat \<Rightarrow> taxnode obj option" where
  "load_items fuel h a =
     (case map_entries h a of None \<Rightarrow> None | Some es \<Rightarrow> load_entries (load_node fuel h) es)"

text \<open>
  From the address \<open>n0\<close> on, the objects of the store refer only to objects from \<open>n0\<close>
  on: nothing reached from there lies below \<open>n0\<close>.
\<close>

definition closed_from :: "nat \<Rightarrow> store \<Rightarrow> bool" where
  "closed_from n0 h = list_all (\<lambda>ob. list_all (\<lambda>x. n0 \<le> x) (refs ob)) (drop n0 h)"

text \<open>The copy only adds objects, and the added objects refer to added objects.\<close>

definition extends :: "nat \<Rightarrow> store \<Rightarrow> store \<Rightarrow> bool" where
  "extends n0 h h1 = (\<exists>new. h1 = h @ new \<and> (\<forall>ob \<in> set new. \<forall>x \<in> set (refs ob). n0 \<le> x))"

text \<open>
  A later store keeps everything below \<open>n0\<close> as it was, and is still closed from \<open>n0\<close>.
\<close>

definition keeps :: "nat \<Rightarrow> store \<Rightarrow> store \<Rightarrow> bool" where
  "keeps n0 h h' = (length h \<le> length h' \<and> take n0 h' = take n0 h \<and> closed_from n0 h')"


text \<open>
  How a store holds a tree. \<open>file_rel\<close> reads a file record through a reference.
  \<open>rep_node h n b nd S\<close>: the node at \<open>b\<close> holds the tree \<open>nd\<close>, of depth at most \<open>n\<close>, and
  \<open>S\<close> is the set of the addresses of its nodes and \<open>items\<close> objects, each of which is
  reached once. \<open>inrep A h n v nd\<close>: the reference \<open>v\<close> reads as the tree \<open>nd\<close> and the
  nodes and \<open>items\<close> objects read on the way lie in \<open>A\<close>.
\<close>

definition file_rel :: "store \<Rightarrow> hval \<Rightarrow> file_record \<Rightarrow> bool" where
  "file_rel h v r = (file_at h v = Some r)"

inductive rep_node :: "store \<Rightarrow> nat \<Rightarrow> nat \<Rightarrow> taxnode \<Rightarrow> nat set \<Rightarrow> bool"
  and rep_entries :: "store \<Rightarrow> nat \<Rightarrow> (string \<times> hval) list \<Rightarrow> taxnode obj \<Rightarrow> nat set \<Rightarrow> bool" where
  rep_leaf:
    "b < length h \<Longrightarrow> h ! b = HNode k d nn True m t \<Longrightarrow> map_entries h m = Some es \<Longrightarrow>
     load_files h es = Some fs \<Longrightarrow> rep_node h (Suc n) b (Leaf k d nn fs t) {b, m}"
| rep_branch:
    "b < length h \<Longrightarrow> h ! b = HNode k d nn False m t \<Longrightarrow> map_entries h m = Some es \<Longrightarrow>
     rep_entries h n es cs S \<Longrightarrow> b \<notin> S \<Longrightarrow> m \<notin> S \<Longrightarrow>
     rep_node h (Suc n) b (Branch k d nn cs) (insert b (insert m S))"
| rep_nil: "rep_entries h n [] [] {}"
| rep_cons:
    "rep_node h n b nd S1 \<Longrightarrow> rep_entries h n es cs S2 \<Longrightarrow> S1 \<inter> S2 = {} \<Longrightarrow>
     rep_entries h n ((k, HRef b) # es) ((k, nd) # cs) (S1 \<union> S2)"

primrec inrep :: "nat set \<Rightarrow> store \<Rightarrow> nat \<Rightarrow> hval \<Rightarrow> taxnode \<Rightarrow> bool" where
  "inrep A h 0 v nd = False"
| "inrep A h (Suc n) v nd =
     (case v of
        HNull \<Rightarrow> False
      | HRef b \<Rightarrow>
          b \<in> A \<and> b < length h \<and>
          (case h ! b of
             HNode k d nn e m t \<Rightarrow>
               m \<in> A \<and>
               (case map_entries h m of
                  None \<Rightarrow> False
                | Some es \<Rightarrow>
                    if e then (\<exists>fs. load_files h es = Some fs \<and> nd = Leaf k d nn fs t)
                    else (\<exists>cs. list_all2 (rel_prod (=) (inrep A h n)) es cs \<and> nd = Branch k d nn cs))
           | other \<Rightarrow> False))"

text \<open>
  What a step may change: the objects at the addresses in \<open>M\<close>; no object is removed and
  no file record is changed.
\<close>

definition frame :: "nat set \<Rightarrow> store \<Rightarrow> store \<Rightarrow> bool" where
  "frame M h h' =
     (length h \<le> length h' \<and> (\<forall>x<length h. x \<notin> M \<longrightarrow> h' ! x = h ! x) \<and>
      (\<forall>x<length h. \<forall>r. h ! x = HFile r \<longrightarrow> h' ! x = HFile r))"

text \<open>Every object holds each of its keys once, at every depth of the tree.\<close>

fun keys_once :: "taxnode \<Rightarrow> bool" where
  "keys_once (Leaf k d n its t) = True"
| "keys_once (Branch k d n its) =
     (distinct (obj_keys its) \<and> list_all (\<lambda>en. keys_once (snd en)) its)"

definition keys_once_items :: "taxnode obj \<Rightarrow> bool" where
  "keys_once_items its = (distinct (obj_keys its) \<and> list_all (\<lambda>en. keys_once (snd en)) its)"

section \<open>A small collection\<close>

text \<open>
  Two tracks of one album under the directory \<open>rock\<close>, a file system that holds them,
  and one playlist; used to run the definitions on concrete inputs.
\<close>

definition ex_tags :: "string \<Rightarrow> int \<Rightarrow> jsval obj" where
  "ex_tags title n =
     [(''title'', JStr title), (''album'', JStr ''Y''), (''artists'', JArr [JStr ''X'']),
      (''albumartist'', JStr ''X''),
      (''track'', JObj [(''no'', JNum n), (''of'', JNull)]),
      (''disk'', JObj [(''no'', JNum 1), (''of'', JNull)])]"

definition ex_record :: "string \<Rightarrow> string \<Rightarrow> int \<Rightarrow> int \<Rightarrow> file_record" where
  "ex_record f title n mt =
     \<lparr>r_tags = Some (ex_tags title n), r_category = Some [], r_format = Some [],
      r_meta = Some (Some ''rock''), r_file = Some f, r_time = Some 1000, r_mtime = Some mt,
      r_ext = Some ''mp3'', r_error = None\<rparr>"

definition ex_record_a :: file_record where
  "ex_record_a = ex_record ''rock/a.mp3'' ''One'' 1 5"

definition ex_record_b :: file_record where
  "ex_record_b = ex_record ''rock/b.mp3'' ''Two'' 2 6"

definition ex_playlists :: "playlist list" where
  "ex_playlists =
     [\<lparr>pl_title = ''Mix'', pl_file = ''mix.m3u8'', pl_id = ''1'',
       pl_tracks = [\<lparr>track_file = ''rock/a.mp3''\<rparr>]\<rparr>]"

text \<open>
  The file system holds \<open>rock/a.mp3\<close> and \<open>rock/b.mp3\<close> and a third file,
  \<open>rock/bad.mp3\<close>, whose tags cannot be read.
\<close>

definition ex_env :: env where
  "ex_env =
     \<lparr>fs_stat = (\<lambda>p. if p = ''/m/rock/a.mp3'' then Inr 5 else if p = ''/m/rock/b.mp3'' then Inr 6
                       else if p = ''/m/rock/bad.mp3'' then Inr 7 else Inl ENOENT),
      fs_access = (\<lambda>p. if p = ''/m/rock/a.mp3'' \<or> p = ''/m/rock/b.mp3'' \<or> p = ''/m/rock/bad.mp3''
                         then Inr () else Inl ENOENT),
      path_join = (\<lambda>a b. a @ ''/'' @ b),
      file_ext = (\<lambda>f. ''mp3''),
      processTags = (\<lambda>ex f p cat.
         if f = ''rock/a.mp3'' then Inr \<lparr>td_tags = ex_tags ''One'' 1, td_category = [], td_format = []\<rparr>
         else if f = ''rock/b.mp3'' then Inr \<lparr>td_tags = ex_tags ''Two'' 2, td_category = [], td_format = []\<rparr>
         else Inl \<lparr>err_name = ''Error'', err_code = None, err_message = ''bad header''\<rparr>),
      date_now = (\<lambda>f. 1000),
      fg = (\<lambda>p. [''rock/b.mp3'', ''rock/a.mp3'']),
      findPlaylists = (\<lambda>wa. Inr ex_playlists)\<rparr>"

definition ex_state :: state where
  "ex_state = \<lparr>data = [(''rock/a.mp3'', ex_record_a), (''rock/b.mp3'', ex_record_b)],
               ml = None, calls = []\<rparr>"

definition ex_primary :: category_def where
  "ex_primary =
     \<lparr>cat_name = ''Rock'', cat_code = Some ''rock'', cat_basedir = Some ''rock'',
      cat_taxonomy = Some [''albumartist__or__artists'', ''album''], cat_sort = JUndefined,
      cat_inherits = None, cat_filter = (\<lambda>r. True)\<rparr>"

definition ex_secondary :: category_def where
  "ex_secondary =
     \<lparr>cat_name = ''First tracks'', cat_code = Some ''first'', cat_basedir = None,
      cat_taxonomy = None, cat_sort = JUndefined, cat_inherits = Some ''rock'',
      cat_filter = (\<lambda>r. tags_get r ''title'' = JStr ''One'')\<rparr>"

text \<open>The tree of the two tracks under artist, then album.\<close>

definition ex_leaf :: taxnode where
  "ex_leaf =
     Leaf ''album'' (JStr ''Y'') False
       [(''rock/a.mp3'', ex_record_a), (''rock/b.mp3'', ex_record_b)]
       (Some [(''album'', JStr ''Y''), (''artists'', JArr [JStr ''X'']), (''albumartist'', JStr ''X'')])"

definition ex_tree :: "taxnode obj" where
  "ex_tree = [(''X'', Branch ''albumartist__or__artists'' (JStr ''X'') False [(''Y'', ex_leaf)])]"

text \<open>A predicate that holds of no track of the tree, though not of no record at all.\<close>

definition ex_reject :: "file_record \<Rightarrow> bool" where
  "ex_reject r = (tags_get r ''title'' = JStr ''Nine'')"

definition ex_options :: options where
  "ex_options = \<lparr>forceRefresh = False, printSpeed = False\<rparr>"

definition ex_empty_state :: state where
  "ex_empty_state = \<lparr>data = [], ml = None, calls = []\<rparr>"

text \<open>The same file system with the unreadable file among the files found.\<close>

definition ex_env_bad :: env where
  "ex_env_bad = ex_env\<lparr>fg := \<lambda>p. [''rock/b.mp3'', ''rock/bad.mp3'', ''rock/a.mp3'']\<rparr>"

definition ex_error :: js_error where
  "ex_error = \<lparr>err_name = ''Error'', err_code = None, err_message = ''bad header''\<rparr>"

definition ex_disk :: disk where
  "ex_disk = \<lparr>file_caches = (\<lambda>p. Inl ENOENT), ml_caches = (\<lambda>p. Inl ENOENT)\<rparr>"

definition ex_config :: config where
  "ex_config = \<lparr>fileCachePath = ''files.json'', mlCachePath = ''ml.json'', waPath = ''wa''\<rparr>"





text \<open>
  Three tracks of one album with container indices 2, 1, 1 and item indices missing, 2, 1.
\<close>

definition ex_track :: "string \<Rightarrow> string \<Rightarrow> jsval \<Rightarrow> jsval \<Rightarrow> file_record" where
  "ex_track f title disk_no track_no =
     \<lparr>r_tags = Some [(''title'', JStr title), (''album'', JStr ''Z''),
                      (''track'', JObj [(''no'', track_no), (''of'', JNull)]),
                      (''disk'', JObj [(''no'', disk_no), (''of'', JNull)])],
      r_category = Some [], r_format = Some [], r_meta = Some (Some ''rock''),
      r_file = Some f, r_time = Some 1000, r_mtime = Some 1, r_ext = Some ''mp3'',
      r_error = None\<rparr>"

definition ex_album :: "file_record obj" where
  "ex_album =
     [(''z/1.mp3'', ex_track ''z/1.mp3'' ''Bonus'' (JNum 2) JNull),
      (''z/2.mp3'', ex_track ''z/2.mp3'' ''Second'' (JNum 1) (JNum 2)),
      (''z/3.mp3'', ex_track ''z/3.mp3'' ''First'' (JNum 1) (JNum 1))]"

text \<open>Two tracks whose artists are met in descending order.\<close>

definition ex_unsorted :: "file_record obj" where
  "ex_unsorted =
     [(''rock/a.mp3'', (ex_record ''rock/a.mp3'' ''One'' 1 5)
         \<lparr>r_tags := Some [(''title'', JStr ''One''), (''album'', JStr ''Y''), (''albumartist'', JStr ''B'')]\<rparr>),
      (''rock/b.mp3'', (ex_record ''rock/b.mp3'' ''Two'' 1 6)
         \<lparr>r_tags := Some [(''title'', JStr ''Two''), (''album'', JStr ''W''), (''albumartist'', JStr ''A'')]\<rparr>)]"

text \<open>Records whose artists are met as \<open>B\<close>, \<open>A\<close>, \<open>7\<close>, \<open>3\<close> and \<open>B\<close> again.\<close>

definition ex_mixed :: "file_record obj" where
  "ex_mixed =
     [(''rock/a.mp3'', (ex_record ''rock/a.mp3'' ''One'' 1 5)
         \<lparr>r_tags := Some [(''title'', JStr ''One''), (''album'', JStr ''Y''), (''albumartist'', JStr ''B'')]\<rparr>),
      (''rock/b.mp3'', (ex_record ''rock/b.mp3'' ''Two'' 1 6)
         \<lparr>r_tags := Some [(''title'', JStr ''Two''), (''album'', JStr ''W''), (''albumartist'', JStr ''A'')]\<rparr>),
      (''rock/c.mp3'', (ex_record ''rock/c.mp3'' ''Three'' 1 7)
         \<lparr>r_tags := Some [(''title'', JStr ''Three''), (''album'', JStr ''V''), (''albumartist'', JStr ''7'')]\<rparr>),
      (''rock/d.mp3'', (ex_record ''rock/d.mp3'' ''Four'' 1 8)
         \<lparr>r_tags := Some [(''title'', JStr ''Four''), (''album'', JStr ''U''), (''albumartist'', JStr ''3'')]\<rparr>),
      (''rock/e.mp3'', (ex_record ''rock/e.mp3'' ''Five'' 1 9)
         \<lparr>r_tags := Some [(''title'', JStr ''Five''), (''album'', JStr ''T''), (''albumartist'', JStr ''B'')]\<rparr>)]"

text \<open>Albums of one artist whose titles are numerals and words.\<close>

definition ex_numeric :: "file_record obj" where
  "ex_numeric =
     [(''rock/a.mp3'', (ex_record ''rock/a.mp3'' ''One'' 1 5)
         \<lparr>r_tags := Some [(''title'', JStr ''One''), (''album'', JStr ''Low''), (''albumartist'', JStr ''A'')]\<rparr>),
      (''rock/b.mp3'', (ex_record ''rock/b.mp3'' ''Two'' 1 6)
         \<lparr>r_tags := Some [(''title'', JStr ''Two''), (''album'', JStr ''1989''), (''albumartist'', JStr ''A'')]\<rparr>),
      (''rock/c.mp3'', (ex_record ''rock/c.mp3'' ''Three'' 1 7)
         \<lparr>r_tags := Some [(''title'', JStr ''Three''), (''album'', JStr ''21''), (''albumartist'', JStr ''A'')]\<rparr>),
      (''rock/d.mp3'', (ex_record ''rock/d.mp3'' ''Four'' 1 8)
         \<lparr>r_tags := Some [(''title'', JStr ''Four''), (''album'', JStr ''Abbey''), (''albumartist'', JStr ''A'')]\<rparr>)]"

text \<open>The tree of the two tracks in the store, and the tree derived from it.\<close>

definition ex_store :: "store \<times> nat" where
  "ex_store = store_items [] ex_tree"

definition ex_derived :: "(store \<times> nat) option" where
  "ex_derived = derive_store 6 (cat_filter ex_secondary) (fst ex_store) (snd ex_store)"


section \<open>Objects: keys, lookup and entries\<close>

lemma obj_keys_replace: "obj_keys (obj_replace ob k v) = obj_keys ob"
  by (induction ob) (auto simp: obj_keys_def)

lemma obj_keys_insert_index:
  "set (obj_keys (obj_insert_index ob k v)) = insert k (set (obj_keys ob))"
  by (induction ob k v rule: obj_insert_index.induct) (simp_all add: obj_keys_def insert_commute)

lemma set_obj_keys_set: "set (obj_keys (obj_set ob k v)) = insert k (set (obj_keys ob))"
  by (auto simp: obj_set_def obj_keys_insert_index obj_keys_replace) (auto simp: obj_keys_def)

lemma distinct_insert_index:
  "distinct (obj_keys ob) \<Longrightarrow> k \<notin> set (obj_keys ob) \<Longrightarrow>
   distinct (obj_keys (obj_insert_index ob k v))"
proof (induction ob)
  case Nil
  then show ?case by (simp add: obj_keys_def)
next
  case (Cons en ob)
  obtain a b where en: "en = (a, b)" by (cases en)
  have d: "distinct (obj_keys ob)" and nk: "k \<notin> set (obj_keys ob)" and ak: "a \<noteq> k"
    and na: "a \<notin> set (obj_keys ob)"
    using Cons.prems en by (auto simp: obj_keys_def)
  have ih: "distinct (obj_keys (obj_insert_index ob k v))" using Cons.IH d nk by simp
  have "a \<notin> set (obj_keys (obj_insert_index ob k v))"
    using na ak by (simp add: obj_keys_insert_index)
  with ih Cons.prems show ?case
    by (auto simp: en obj_keys_def)
qed

lemma distinct_obj_set: "distinct (obj_keys ob) \<Longrightarrow> distinct (obj_keys (obj_set ob k v))"
  by (auto simp: obj_set_def distinct_insert_index obj_keys_replace) (auto simp: obj_keys_def)

lemma obj_get_None_iff: "obj_get ob k = None \<longleftrightarrow> k \<notin> set (obj_keys ob)"
  by (simp add: obj_get_def obj_keys_def map_of_eq_None_iff)

lemma get_replace:
  "obj_get (obj_replace ob k v) k' =
     (if k' = k \<and> k \<in> set (obj_keys ob) then Some v else obj_get ob k')"
  by (induction ob k v rule: obj_replace.induct)
     (force simp: obj_get_def obj_keys_def)+

lemma get_insert_index:
  "obj_get (obj_insert_index ob k v) k' = (if k' = k then Some v else obj_get ob k')"
  by (induction ob k v rule: obj_insert_index.induct) (auto simp: obj_get_def)

lemma get_append_new:
  "k \<notin> set (obj_keys ob) \<Longrightarrow>
   obj_get (ob @ [(k, v)]) k' = (if k' = k then Some v else obj_get ob k')"
proof (cases "obj_get ob k'")
  case None
  then show ?thesis by (simp add: obj_get_def map_add_def)
next
  case (Some w)
  assume "k \<notin> set (obj_keys ob)"
  with Some have "k' \<noteq> k" using obj_get_None_iff [of ob k] by auto
  with Some show ?thesis by (simp add: obj_get_def map_add_def)
qed

lemma obj_get_set: "obj_get (obj_set ob k v) k' = (if k' = k then Some v else obj_get ob k')"
  by (simp add: obj_set_def get_replace get_insert_index get_append_new)

lemma obj_get_delete: "obj_get (obj_delete ob k) k' = (if k' = k then None else obj_get ob k')"
  by (induction ob) (auto simp: obj_get_def obj_delete_def)

lemma set_obj_replace: "set (obj_replace ob k v) \<subseteq> insert (k, v) (set ob)"
  by (induction ob) (auto split: if_splits)

lemma set_obj_insert_index: "set (obj_insert_index ob k v) = insert (k, v) (set ob)"
  by (induction ob) (auto split: if_splits)

lemma set_obj_set: "set (obj_set ob k v) \<subseteq> insert (k, v) (set ob)"
  using set_obj_replace [of ob k v] by (auto simp: obj_set_def set_obj_insert_index)

lemma obj_set_not_Nil: "obj_set ob k v \<noteq> []"
proof -
  have "k \<in> set (obj_keys (obj_set ob k v))" by (simp add: set_obj_keys_set)
  then show ?thesis by (auto simp: obj_keys_def)
qed

lemma set_foldl_obj_set:
  "set (foldl (\<lambda>ob e. obj_set ob (fst e) (snd e)) acc es) \<subseteq> set acc \<union> set es"
proof (induction es arbitrary: acc)
  case Nil
  then show ?case by simp
next
  case (Cons e es)
  have "set (obj_set acc (fst e) (snd e)) \<subseteq> insert e (set acc)"
    using set_obj_set [of acc "fst e" "snd e"] by simp
  with Cons [of "obj_set acc (fst e) (snd e)"] show ?case by auto
qed

lemma set_fromEntries: "set (fromEntries es) \<subseteq> set es"
  using set_foldl_obj_set [of "[]" es] by (simp add: fromEntries_def)

lemma foldl_obj_set_not_Nil:
  "acc \<noteq> [] \<Longrightarrow> foldl (\<lambda>ob e. obj_set ob (fst e) (snd e)) acc es \<noteq> []"
  by (induction es arbitrary: acc) (auto simp: obj_set_not_Nil)

lemma fromEntries_Nil_iff: "fromEntries es = [] \<longleftrightarrow> es = []"
proof (cases es)
  case Nil
  then show ?thesis by (simp add: fromEntries_def)
next
  case (Cons e rest)
  then show ?thesis
    using foldl_obj_set_not_Nil [of "obj_set [] (fst e) (snd e)" rest]
    by (simp add: fromEntries_def obj_set_not_Nil)
qed

lemma keys_foldl_obj_set:
  "set (obj_keys (foldl (\<lambda>ob e. obj_set ob (fst e) (snd e)) acc es)) =
   set (obj_keys acc) \<union> fst ` set es"
  by (induction es arbitrary: acc) (auto simp: set_obj_keys_set)

lemma distinct_foldl_obj_set:
  "distinct (obj_keys acc) \<Longrightarrow>
   distinct (obj_keys (foldl (\<lambda>ob e. obj_set ob (fst e) (snd e)) acc es))"
  by (induction es arbitrary: acc) (auto simp: distinct_obj_set)

lemma distinct_fromEntries: "distinct (obj_keys (fromEntries es))"
  using distinct_foldl_obj_set [of "[]" es] by (simp add: fromEntries_def obj_keys_def)

text \<open>Entries with distinct keys, none of them an array index, are kept as they are.\<close>

lemma foldl_obj_set_plain:
  "distinct (obj_keys acc @ map fst es) \<Longrightarrow> \<forall>k \<in> fst ` set es. \<not> is_array_index k \<Longrightarrow>
   foldl (\<lambda>ob e. obj_set ob (fst e) (snd e)) acc es = acc @ es"
proof (induction es arbitrary: acc)
  case Nil
  then show ?case by simp
next
  case (Cons e es)
  have step: "obj_set acc (fst e) (snd e) = acc @ [e]"
    using Cons.prems by (auto simp: obj_set_def)
  have "distinct (obj_keys (acc @ [e]) @ map fst es)"
    using Cons.prems(1) by (auto simp: obj_keys_def)
  with Cons.IH [of "acc @ [e]"] Cons.prems(2) step show ?case by simp
qed

lemma fromEntries_plain:
  "distinct (map fst es) \<Longrightarrow> \<forall>k \<in> fst ` set es. \<not> is_array_index k \<Longrightarrow> fromEntries es = es"
  using foldl_obj_set_plain [of "[]" es] by (simp add: fromEntries_def obj_keys_def)


section \<open>Loading the cache\<close>

lemma readCache_missing:
  "fs (gz_path p) = Inl ENOENT \<Longrightarrow> readCache fs p = Inr []"
  by (simp add: readCache_def readCache_try_def ENOENT_def)

lemma readCache_malformed:
  "fs (gz_path p) = Inr (Gzipped Malformed) \<Longrightarrow> readCache fs p = Inr []"
  by (simp add: readCache_def readCache_try_def gunzip_def JSON_parse_def SyntaxError_def)

lemma readCache_garbage:
  "fs (gz_path p) = Inr Garbage \<Longrightarrow> readCache fs p = Inl Z_DATA_ERROR"
  by (simp add: readCache_def readCache_try_def gunzip_def Z_DATA_ERROR_def)

lemma readCache_other_read_error:
  "fs (gz_path p) = Inl err \<Longrightarrow> err_code err \<noteq> Some ''ENOENT'' \<Longrightarrow>
   err_name err \<noteq> ''SyntaxError'' \<Longrightarrow> readCache fs p = Inl err"
  by (simp add: readCache_def readCache_try_def)

text \<open>
  C6 (as stated, refuted): a cache file whose bytes are not a gzip stream is a corrupt
  persisted blob, and loading it raises the decompression error to the caller instead of
  returning the empty mapping.
\<close>

theorem readCache_corrupt_gzip_raises:
  "readCache ((\<lambda>p. Inl ENOENT)(gz_path ''cache'' := Inr Garbage) :: nat obj cache_fs) ''cache''
     \<noteq> Inr []"
  by (simp add: readCache_garbage)

text \<open>
  C6 (amended): loading returns the empty mapping when the cache file is missing
  (\<open>ENOENT\<close>) and when the decompressed text is not valid JSON (\<open>SyntaxError\<close>); a file
  that holds a well-formed cache is returned as it is; a file that cannot be decompressed,
  and any read failure other than \<open>ENOENT\<close> (not named \<open>SyntaxError\<close>), is raised to
  the caller.
\<close>

theorem readCache_cases:
  "(fs (gz_path p) = Inl ENOENT \<longrightarrow> readCache fs p = Inr []) \<and>
   (fs (gz_path p) = Inr (Gzipped Malformed) \<longrightarrow> readCache fs p = Inr []) \<and>
   (fs (gz_path p) = Inr (Gzipped (Json cached)) \<longrightarrow> readCache fs p = Inr cached) \<and>
   (fs (gz_path p) = Inr Garbage \<longrightarrow> readCache fs p = Inl Z_DATA_ERROR) \<and>
   (\<forall>err. fs (gz_path p) = Inl err \<and> err_code err \<noteq> Some ''ENOENT'' \<and>
      err_name err \<noteq> ''SyntaxError'' \<longrightarrow> readCache fs p = Inl err)"
  by (auto simp: readCache_missing readCache_malformed readCache_garbage
      readCache_other_read_error)
     (simp add: readCache_def readCache_try_def gunzip_def JSON_parse_def)

theorem readCache_cases_witness:
  "readCache ((\<lambda>p. Inl ENOENT) :: nat obj cache_fs) ''cache'' = Inr [] \<and>
   readCache ((\<lambda>p. Inr (Gzipped Malformed)) :: nat obj cache_fs) ''cache'' = Inr [] \<and>
   readCache (\<lambda>p. Inr (Gzipped (Json [(''a.mp3'', 1 :: nat)]))) ''cache'' = Inr [(''a.mp3'', 1)] \<and>
   readCache ((\<lambda>p. Inr Garbage) :: nat obj cache_fs) ''cache'' = Inl Z_DATA_ERROR \<and>
   readCache ((\<lambda>p. Inl (TypeError ''EISDIR'')) :: nat obj cache_fs) ''cache'' = Inl (TypeError ''EISDIR'')"
  using readCache_cases [of "\<lambda>p. Inl ENOENT :: js_error + nat obj bytes" "''cache''"]
    readCache_cases [of "\<lambda>p. Inr (Gzipped Malformed) :: js_error + nat obj bytes" "''cache''"]
    readCache_cases [of "\<lambda>p. Inr (Gzipped (Json [(''a.mp3'', 1 :: nat)]))" "''cache''" "[(''a.mp3'', 1 :: nat)]"]
    readCache_cases [of "\<lambda>p. Inr Garbage :: js_error + nat obj bytes" "''cache''"]
    readCache_cases [of "\<lambda>p. Inl (TypeError ''EISDIR'') :: js_error + nat obj bytes" "''cache''"]
  by (simp add: TypeError_def)


section \<open>The grouping value\<close>

lemma getTaxonomyValue_loop_spec: "getTaxonomyValue_loop t ranked = spec_groupValue t ranked"
proof (induction ranked)
  case Nil
  then show ?case by (simp add: spec_groupValue_def)
next
  case (Cons a ranked)
  show ?case
  proof (cases "truthy (contributed t a)")
    case True
    then show ?thesis
      by (cases "isArray (get_prop t a)") (simp_all add: spec_groupValue_def contributed_def Let_def)
  next
    case False
    with Cons.IH show ?thesis
      by (cases "isArray (get_prop t a)") (simp_all add: spec_groupValue_def contributed_def Let_def)
  qed
qed

lemma split_A_or_B: "split ''A__or__B'' ''__or__'' = [''A'', ''B'']"
  by (simp add: split_def startsWith_def)

text \<open>
  C4: the grouping value of a record under a key is the value contributed by the first
  ranked attribute of the key that holds a non-empty value, the first element standing
  for an ordered sequence, and the ungrouped sentinel when no alternative holds one. The
  key \<open>A__or__B\<close> ranks \<open>A\<close> before \<open>B\<close>; under it a record with only \<open>B\<close> set to a value
  gets the grouping value of a record with only \<open>A\<close> set to that value, and a record
  with neither is ungrouped.
\<close>

theorem getTaxonomyValue_first_non_empty:
  "getTaxonomyValue t k = spec_groupValue t (split k ''__or__'') \<and>
   split ''A__or__B'' ''__or__'' = [''A'', ''B''] \<and>
   getTaxonomyValue [(''B'', v)] ''A__or__B'' = getTaxonomyValue [(''A'', v)] ''A__or__B'' \<and>
   getTaxonomyValue [(''B'', JStr ''x'')] ''A__or__B'' = JStr ''x'' \<and>
   getTaxonomyValue [(''B'', JArr [JStr ''x'', JStr ''y''])] ''A__or__B'' = JStr ''x'' \<and>
   getTaxonomyValue [] ''A__or__B'' = JStr NONE"
proof -
  have 1: "getTaxonomyValue t k = spec_groupValue t (split k ''__or__'')"
    by (simp add: getTaxonomyValue_def getTaxonomyValue_loop_spec)
  have 2: "getTaxonomyValue [(''B'', v)] ''A__or__B'' = getTaxonomyValue [(''A'', v)] ''A__or__B''"
    by (cases "isArray v")
       (simp_all add: getTaxonomyValue_def split_A_or_B get_prop_def obj_get_def Let_def)
  have 3: "getTaxonomyValue [(''B'', JStr ''x'')] ''A__or__B'' = JStr ''x''"
    by (simp add: getTaxonomyValue_def split_A_or_B get_prop_def obj_get_def Let_def)
  have 4: "getTaxonomyValue [(''B'', JArr [JStr ''x'', JStr ''y''])] ''A__or__B'' = JStr ''x''"
    by (simp add: getTaxonomyValue_def split_A_or_B get_prop_def obj_get_def Let_def)
  have 5: "getTaxonomyValue [] ''A__or__B'' = JStr NONE"
    by (simp add: getTaxonomyValue_def split_A_or_B get_prop_def obj_get_def Let_def)
  from 1 2 3 4 5 split_A_or_B show ?thesis by simp
qed


section \<open>Playlists\<close>

lemma importPlaylists_stores_definitions:
  "findPlaylists e wa = Inr pls \<Longrightarrow>
   importPlaylists e wa st =
     (st\<lparr>ml := Some ((case ml st of None \<Rightarrow> empty_ml | Some m \<Rightarrow> m)\<lparr>ml_playlists := Some pls\<rparr>)\<rparr>,
      Inr ())"
  by (simp add: importPlaylists_def Let_def)

text \<open>
  C2 (the code at an input where it departs from the claim): one playlist with the track
  \<open>a.mp3\<close>, which the record mapping holds. The playlist stored in the media library
  still has the bare track reference; the record found for it is in \<open>pl\<close>, which is
  not stored.
\<close>

theorem importPlaylists_keeps_track_references:
  "fst (importPlaylists ex_env ''wa'' ex_state) =
     ex_state\<lparr>ml := Some \<lparr>ml_categories = None,
        ml_playlists = Some [\<lparr>pl_title = ''Mix'', pl_file = ''mix.m3u8'', pl_id = ''1'',
                              pl_tracks = [\<lparr>track_file = ''rock/a.mp3''\<rparr>]\<rparr>]\<rparr>\<rparr> \<and>
   map (resolve_tracks ex_state) ex_playlists =
     [\<lparr>rp_title = ''Mix'', rp_file = ''mix.m3u8'', rp_id = ''1'',
       rp_tracks = [Some ex_record_a]\<rparr>]"
  by (simp add: importPlaylists_def ex_env_def ex_state_def ex_playlists_def empty_ml_def
      resolve_tracks_def obj_get_def Let_def)


section \<open>The derived tree has no empty node\<close>

lemma compactObject_Nil_iff:
  "compactObject ob = [] \<longleftrightarrow> (\<forall>en \<in> set ob. snd en = None)"
proof -
  have "compactObject ob = [] \<longleftrightarrow>
        List.map_filter (\<lambda>en. case snd en of None \<Rightarrow> None | Some v \<Rightarrow> Some (fst en, v)) ob = []"
    by (simp add: compactObject_def fromEntries_Nil_iff)
  also have "\<dots> \<longleftrightarrow> (\<forall>en \<in> set ob. snd en = None)"
    by (induction ob) (auto split: option.splits)
  finally show ?thesis .
qed

lemma set_compactObject:
  "(k, v) \<in> set (compactObject ob) \<Longrightarrow> (k, Some v) \<in> set ob"
proof -
  assume "(k, v) \<in> set (compactObject ob)"
  then have "(k, v) \<in> set (List.map_filter
      (\<lambda>en. case snd en of None \<Rightarrow> None | Some v \<Rightarrow> Some (fst en, v)) ob)"
    using set_fromEntries by (auto simp: compactObject_def)
  then show ?thesis
    by (induction ob) (auto split: option.splits)
qed

lemma filterMediaLibraryTaxonomy_entry:
  "(k, nd') \<in> set (filterMediaLibraryTaxonomy its f) \<Longrightarrow>
   \<exists>nd. (k, nd) \<in> set its \<and> filter_node f nd = Some nd'"
proof -
  assume "(k, nd') \<in> set (filterMediaLibraryTaxonomy its f)"
  then have "(k, Some nd') \<in> set (map (\<lambda>en. (fst en, filter_node f (snd en))) its)"
    unfolding filterMediaLibraryTaxonomy_def by (rule set_compactObject)
  then show ?thesis by auto
qed

lemma filter_node_Branch:
  "filter_node f (Branch k d n its) =
     (if filterMediaLibraryTaxonomy its f = [] then None
      else Some (Branch k d n (filterMediaLibraryTaxonomy its f)))"
  by (simp add: filterMediaLibraryTaxonomy_def obj_keys_def Let_def)

lemma filter_node_nonempty: "filter_node f nd = Some nd' \<Longrightarrow> nonempty_node nd'"
proof (induction nd arbitrary: nd')
  case (Leaf k d n its t)
  then show ?case
    by (auto simp: Let_def fromEntries_Nil_iff split: if_splits)
next
  case (Branch k d n its)
  let ?its' = "filterMediaLibraryTaxonomy its f"
  from Branch.prems have ne: "?its' \<noteq> []" and nd': "nd' = Branch k d n ?its'"
    by (auto simp: filter_node_Branch simp del: filter_node.simps split: if_splits)
  have "nonempty_node c'" if "(ck, c') \<in> set ?its'" for ck c'
  proof -
    from that obtain c where "(ck, c) \<in> set its" and "filter_node f c = Some c'"
      using filterMediaLibraryTaxonomy_entry by blast
    then show ?thesis using Branch.IH [of "(ck, c)" c c'] by auto
  qed
  with ne nd' show ?case by (auto simp: list_all_iff)
qed

lemma filterMediaLibraryTaxonomy_nonempty:
  "list_all (\<lambda>en. nonempty_node (snd en)) (filterMediaLibraryTaxonomy its f)"
  using filterMediaLibraryTaxonomy_entry filter_node_nonempty
  by (fastforce simp: list_all_iff)

lemma filter_node_reject_all:
  assumes rej: "\<And>r. \<not> f r"
  shows "filter_node f nd = None"
proof (induction nd)
  case (Leaf k d n its t)
  then show ?case by (simp add: rej)
next
  case (Branch k d n its)
  have "filter_node f (snd en) = None" if "en \<in> set its" for en
  proof -
    have "snd en \<in> Basic_BNFs.snds en" by (cases en) simp
    with that Branch show ?thesis by blast
  qed
  then have "filterMediaLibraryTaxonomy its f = []"
    unfolding filterMediaLibraryTaxonomy_def compactObject_Nil_iff by simp
  then show ?case by (simp add: filter_node_Branch del: filter_node.simps)
qed

lemma filterMediaLibraryTaxonomy_reject_all:
  "\<forall>r. \<not> f r \<Longrightarrow> filterMediaLibraryTaxonomy its f = []"
  unfolding filterMediaLibraryTaxonomy_def compactObject_Nil_iff
  by (simp add: filter_node_reject_all)

lemma filter_node_Leaf_None:
  "filter_node f (Leaf k d n its t) = None \<longleftrightarrow> (\<forall>en \<in> set its. \<not> f (snd en))"
  by (auto simp: Let_def filter_empty_conv)

lemma filter_node_Branch_None:
  "filter_node f (Branch k d n its) = None \<longleftrightarrow> (\<forall>en \<in> set its. filter_node f (snd en) = None)"
  by (auto simp: filter_node_Branch filterMediaLibraryTaxonomy_def compactObject_Nil_iff
      simp del: filter_node.simps)

lemma filter_node_None_iff: "filter_node f nd = None \<longleftrightarrow> rejects_all f nd"
proof (induction nd)
  case (Leaf k d n its t)
  show ?case unfolding filter_node_Leaf_None by (simp add: list_all_iff)
next
  case (Branch k d n its)
  have "filter_node f (snd en) = None \<longleftrightarrow> rejects_all f (snd en)" if "en \<in> set its" for en
  proof -
    have "snd en \<in> Basic_BNFs.snds en" by (cases en) simp
    with that Branch show ?thesis by blast
  qed
  then show ?case unfolding filter_node_Branch_None by (simp add: list_all_iff)
qed

lemma filterMediaLibraryTaxonomy_Nil_iff:
  "filterMediaLibraryTaxonomy its f = [] \<longleftrightarrow> list_all (\<lambda>en. rejects_all f (snd en)) its"
  unfolding filterMediaLibraryTaxonomy_def compactObject_Nil_iff
  by (simp add: filter_node_None_iff list_all_iff)

text \<open>
  C8: the tree the category deriver returns has no empty leaf and no empty branch, at
  any depth. A leaf is dropped exactly when the predicate rejects all its members and a
  branch exactly when all its children are dropped. The result is the empty tree exactly
  when the predicate rejects every member of every leaf of the tree that is filtered,
  and the secondary category is then reported with that empty tree.
\<close>

theorem filterMediaLibraryTaxonomy_no_empty_node:
  "list_all (\<lambda>en. nonempty_node (snd en)) (filterMediaLibraryTaxonomy its f) \<and>
   (filter_node f (Leaf k d n members t) = None \<longleftrightarrow> (\<forall>en \<in> set members. \<not> f (snd en))) \<and>
   (filter_node f (Branch k d n children) = None \<longleftrightarrow>
      (\<forall>en \<in> set children. filter_node f (snd en) = None)) \<and>
   (filterMediaLibraryTaxonomy its f = [] \<longleftrightarrow> list_all (\<lambda>en. rejects_all f (snd en)) its) \<and>
   (list_all (\<lambda>en. rejects_all (cat_filter cat) (snd en)) (ce_items b) \<and>
    find (\<lambda>pCat. ce_code pCat = cat_inherits cat) prims = Some b \<longrightarrow>
      (\<exists>en. secondary_entry prims cat = Some en \<and> ce_items en = []))"
proof -
  have "\<exists>en. secondary_entry prims cat = Some en \<and> ce_items en = []"
    if r: "list_all (\<lambda>en. rejects_all (cat_filter cat) (snd en)) (ce_items b)"
      and fd: "find (\<lambda>pCat. ce_code pCat = cat_inherits cat) prims = Some b"
  proof -
    from r have "filterMediaLibraryTaxonomy (cloneDeep (ce_items b)) (cat_filter cat) = []"
      by (simp add: filterMediaLibraryTaxonomy_Nil_iff cloneDeep_def)
    with fd show ?thesis by (simp add: secondary_entry_def)
  qed
  with filterMediaLibraryTaxonomy_nonempty [of its f] filter_node_Leaf_None [of f k d n members t]
    filter_node_Branch_None [of f k d n children] filterMediaLibraryTaxonomy_Nil_iff [of its f]
  show ?thesis by blast
qed

lemma ex_tree_filtered:
  "filterMediaLibraryTaxonomy ex_tree (cat_filter ex_secondary) =
     [(''X'', Branch ''albumartist__or__artists'' (JStr ''X'') False
        [(''Y'', Leaf ''album'' (JStr ''Y'') False [(''rock/a.mp3'', ex_record_a)]
           (Some [(''album'', JStr ''Y''), (''artists'', JArr [JStr ''X'']),
                  (''albumartist'', JStr ''X'')]))])]"
  by code_simp

lemma ex_find_base:
  "find (\<lambda>pCat. ce_code pCat = cat_inherits ex_secondary)
     [\<lparr>ce_type = ''primary'', ce_name = ''Rock'', ce_code = Some ''rock'', ce_inherits = None,
       ce_taxonomy = Some [''albumartist__or__artists'', ''album''], ce_sort = JUndefined,
       ce_items = ex_tree\<rparr>] =
   Some \<lparr>ce_type = ''primary'', ce_name = ''Rock'', ce_code = Some ''rock'', ce_inherits = None,
       ce_taxonomy = Some [''albumartist__or__artists'', ''album''], ce_sort = JUndefined,
       ce_items = ex_tree\<rparr>"
  by (simp add: ex_secondary_def)

lemma ex_reject_tree: "list_all (\<lambda>en. rejects_all ex_reject (snd en)) ex_tree"
  by code_simp

lemma ex_reject_some: "ex_reject (ex_record ''rock/c.mp3'' ''Nine'' 1 9)"
  by code_simp

lemma ex_reject_leaf:
  "\<forall>en \<in> set [(''rock/a.mp3'', ex_record_a), (''rock/b.mp3'', ex_record_b)]. \<not> ex_reject (snd en)"
  by code_simp

theorem filterMediaLibraryTaxonomy_no_empty_node_witness:
  "list_all (\<lambda>en. nonempty_node (snd en)) (filterMediaLibraryTaxonomy ex_tree (cat_filter ex_secondary)) \<and>
   filterMediaLibraryTaxonomy ex_tree (cat_filter ex_secondary) \<noteq> [] \<and>
   ex_reject (ex_record ''rock/c.mp3'' ''Nine'' 1 9) \<and>
   filter_node ex_reject ex_leaf = None \<and>
   filter_node ex_reject (Branch ''albumartist__or__artists'' (JStr ''X'') False [(''Y'', ex_leaf)]) = None \<and>
   filterMediaLibraryTaxonomy ex_tree ex_reject = [] \<and>
   (\<exists>en. secondary_entry
      [\<lparr>ce_type = ''primary'', ce_name = ''Rock'', ce_code = Some ''rock'', ce_inherits = None,
        ce_taxonomy = Some [''albumartist__or__artists'', ''album''], ce_sort = JUndefined,
        ce_items = ex_tree\<rparr>]
      (ex_secondary\<lparr>cat_filter := ex_reject\<rparr>) = Some en \<and> ce_items en = [])"
proof -
  note a = filterMediaLibraryTaxonomy_no_empty_node
    [of ex_tree "cat_filter ex_secondary" "''album''" "JStr ''Y''" False "[]" None "[]" ex_secondary
       "\<lparr>ce_type = ''primary'', ce_name = ''Rock'', ce_code = Some ''rock'', ce_inherits = None,
        ce_taxonomy = Some [''albumartist__or__artists'', ''album''], ce_sort = JUndefined,
        ce_items = ex_tree\<rparr>" "[]"]
  note b = filterMediaLibraryTaxonomy_no_empty_node
    [of ex_tree ex_reject "''album''" "JStr ''Y''" False
       "[(''rock/a.mp3'', ex_record_a), (''rock/b.mp3'', ex_record_b)]"
       "Some [(''album'', JStr ''Y''), (''artists'', JArr [JStr ''X'']), (''albumartist'', JStr ''X'')]"
       "[]" "ex_secondary\<lparr>cat_filter := ex_reject\<rparr>"
       "\<lparr>ce_type = ''primary'', ce_name = ''Rock'', ce_code = Some ''rock'', ce_inherits = None,
        ce_taxonomy = Some [''albumartist__or__artists'', ''album''], ce_sort = JUndefined,
        ce_items = ex_tree\<rparr>"
       "[\<lparr>ce_type = ''primary'', ce_name = ''Rock'', ce_code = Some ''rock'', ce_inherits = None,
        ce_taxonomy = Some [''albumartist__or__artists'', ''album''], ce_sort = JUndefined,
        ce_items = ex_tree\<rparr>]"]
  note c = filterMediaLibraryTaxonomy_no_empty_node
    [of ex_tree ex_reject "''albumartist__or__artists''" "JStr ''X''" False "[]" None
       "[(''Y'', ex_leaf)]" ex_secondary
       "\<lparr>ce_type = ''primary'', ce_name = ''Rock'', ce_code = Some ''rock'', ce_inherits = None,
        ce_taxonomy = Some [''albumartist__or__artists'', ''album''], ce_sort = JUndefined,
        ce_items = ex_tree\<rparr>" "[]"]
  have 1: "list_all (\<lambda>en. nonempty_node (snd en)) (filterMediaLibraryTaxonomy ex_tree (cat_filter ex_secondary))"
    using a by simp
  have 2: "filterMediaLibraryTaxonomy ex_tree (cat_filter ex_secondary) \<noteq> []"
    by (simp add: ex_tree_filtered)
  have 3: "filter_node ex_reject ex_leaf = None"
    using b ex_reject_leaf unfolding ex_leaf_def by blast
  have 4: "filterMediaLibraryTaxonomy ex_tree ex_reject = []"
    using b ex_reject_tree by blast
  have 5: "filter_node ex_reject (Branch ''albumartist__or__artists'' (JStr ''X'') False [(''Y'', ex_leaf)]) = None"
    using c 3 by (simp del: filter_node.simps)
  have 6: "\<exists>en. secondary_entry
      [\<lparr>ce_type = ''primary'', ce_name = ''Rock'', ce_code = Some ''rock'', ce_inherits = None,
        ce_taxonomy = Some [''albumartist__or__artists'', ''album''], ce_sort = JUndefined,
        ce_items = ex_tree\<rparr>]
      (ex_secondary\<lparr>cat_filter := ex_reject\<rparr>) = Some en \<and> ce_items en = []"
    using b ex_find_base ex_reject_tree by simp
  from 1 2 3 4 5 6 ex_reject_some show ?thesis by blast
qed

section \<open>Processing one file\<close>

lemma is_fresh_in_iff:
  "is_fresh_in d f m \<longleftrightarrow> (\<exists>r. obj_get d f = Some r \<and> r_mtime r = Some m)"
  by (simp add: is_fresh_in_def split: option.splits)

lemma isFresh_ok:
  "fs_stat e p = Inr m \<Longrightarrow> isFresh e st f p = Inr (is_fresh_in (data st) f m, m)"
  by (auto simp: isFresh_def is_fresh_in_def empty_record_def Let_def split: option.splits)

lemma isFresh_fail: "fs_stat e p = Inl err \<Longrightarrow> isFresh e st f p = Inl err"
  by (simp add: isFresh_def Let_def)

lemma processFile_stat_fail:
  "fs_stat e (path_join e mp f) = Inl err \<Longrightarrow> processFile e mp f cats opts st = (st, Inl err)"
  by (simp add: processFile_def isFresh_fail Let_def)

lemma processFile_skip:
  "fs_stat e (path_join e mp f) = Inr m \<Longrightarrow> is_fresh_in (data st) f m \<Longrightarrow> \<not> forceRefresh opts \<Longrightarrow>
   processFile e mp f cats opts st = (st, Inr True)"
  by (simp add: processFile_def isFresh_ok Let_def)

lemma processFile_extract_fail:
  "fs_stat e (path_join e mp f) = Inr m \<Longrightarrow> \<not> (is_fresh_in (data st) f m \<and> \<not> forceRefresh opts) \<Longrightarrow>
   processTags e (file_ext e f) f (path_join e mp f) (getCategory f cats) = Inl err \<Longrightarrow>
   processFile e mp f cats opts st = (st\<lparr>calls := calls st @ [path_join e mp f]\<rparr>, Inl err)"
  by (simp add: processFile_def isFresh_ok Let_def)

lemma processFile_extract_ok:
  "fs_stat e (path_join e mp f) = Inr m \<Longrightarrow> \<not> (is_fresh_in (data st) f m \<and> \<not> forceRefresh opts) \<Longrightarrow>
   processTags e (file_ext e f) f (path_join e mp f) (getCategory f cats) = Inr td \<Longrightarrow>
   processFile e mp f cats opts st =
     (st\<lparr>calls := calls st @ [path_join e mp f],
         data := obj_set (data st) f
           (new_record e td (getCategory f cats) f m (file_ext e f))\<rparr>, Inr False)"
  by (simp add: processFile_def isFresh_ok Let_def)

lemma processFiles_Cons:
  "processFiles e mp (f # files) cats opts st =
     processFiles e mp files cats opts (processFiles_step e mp cats opts f st)"
  by (simp add: processFiles_step_def split: prod.splits sum.splits)

lemma processFiles_append:
  "processFiles e mp (xs @ ys) cats opts st =
     processFiles e mp ys cats opts (processFiles e mp xs cats opts st)"
  by (induction xs arbitrary: st) (simp_all add: processFiles_Cons del: processFiles.simps(2))

lemma step_cases:
  obtains
    (stat_fail) err where "fs_stat e (path_join e mp f) = Inl err"
      "processFiles_step e mp cats opts f st = st\<lparr>data := obj_set (data st) f (error_record err)\<rparr>"
  | (skip) m where "fs_stat e (path_join e mp f) = Inr m" "is_fresh_in (data st) f m"
      "\<not> forceRefresh opts" "processFiles_step e mp cats opts f st = st"
  | (extract_fail) m err where "fs_stat e (path_join e mp f) = Inr m"
      "\<not> (is_fresh_in (data st) f m \<and> \<not> forceRefresh opts)"
      "processTags e (file_ext e f) f (path_join e mp f) (getCategory f cats) = Inl err"
      "processFiles_step e mp cats opts f st =
         st\<lparr>calls := calls st @ [path_join e mp f],
            data := obj_set (data st) f (error_record err)\<rparr>"
  | (extract_ok) m td where "fs_stat e (path_join e mp f) = Inr m"
      "\<not> (is_fresh_in (data st) f m \<and> \<not> forceRefresh opts)"
      "processTags e (file_ext e f) f (path_join e mp f) (getCategory f cats) = Inr td"
      "processFiles_step e mp cats opts f st =
         st\<lparr>calls := calls st @ [path_join e mp f],
            data := obj_set (data st) f (new_record e td (getCategory f cats) f m (file_ext e f))\<rparr>"
proof (cases "fs_stat e (path_join e mp f)")
  case (Inl err)
  then show ?thesis
    using stat_fail [of err] by (simp add: processFiles_step_def processFile_stat_fail)
next
  case (Inr m)
  show ?thesis
  proof (cases "is_fresh_in (data st) f m \<and> \<not> forceRefresh opts")
    case True
    then show ?thesis
      using skip [of m] Inr by (simp add: processFiles_step_def processFile_skip)
  next
    case False
    show ?thesis
    proof (cases "processTags e (file_ext e f) f (path_join e mp f) (getCategory f cats)")
      case (Inl err)
      then show ?thesis
        using extract_fail [of m err] Inr False
        by (simp add: processFiles_step_def processFile_extract_fail)
    next
      case (Inr td)
      then show ?thesis
        using extract_ok [of m td] \<open>fs_stat e (path_join e mp f) = Inr m\<close> False
        by (simp add: processFiles_step_def processFile_extract_ok)
    qed
  qed
qed

lemma step_frame:
  "g \<noteq> f \<Longrightarrow> obj_get (data (processFiles_step e mp cats opts f st)) g = obj_get (data st) g"
  by (rule step_cases [of e mp f cats opts st]) (simp_all add: obj_get_set)


text \<open>The turn for a file depends on the state only through the record stored for that file.\<close>

lemma step_agree:
  assumes "\<forall>g. g \<noteq> f \<longrightarrow> obj_get (data st) g = obj_get (data st') g" and "h \<noteq> f"
  shows "\<forall>g. g \<noteq> f \<longrightarrow>
    obj_get (data (processFiles_step e mp cats opts h st)) g =
    obj_get (data (processFiles_step e mp cats opts h st')) g"
proof -
  have same: "is_fresh_in (data st) h m = is_fresh_in (data st') h m" for m
    using assms by (simp add: is_fresh_in_iff)
  show ?thesis
  proof (rule step_cases [of e mp h cats opts st])
    fix err
    assume a: "fs_stat e (path_join e mp h) = Inl err"
      and b: "processFiles_step e mp cats opts h st = st\<lparr>data := obj_set (data st) h (error_record err)\<rparr>"
    have "processFiles_step e mp cats opts h st' = st'\<lparr>data := obj_set (data st') h (error_record err)\<rparr>"
      using a by (simp add: processFiles_step_def processFile_stat_fail)
    with b assms show ?thesis by (simp add: obj_get_set)
  next
    fix m
    assume a: "fs_stat e (path_join e mp h) = Inr m" and b: "is_fresh_in (data st) h m"
      and c: "\<not> forceRefresh opts" and d: "processFiles_step e mp cats opts h st = st"
    have "processFiles_step e mp cats opts h st' = st'"
      using a b c same by (simp add: processFiles_step_def processFile_skip)
    with d assms show ?thesis by simp
  next
    fix m err
    assume a: "fs_stat e (path_join e mp h) = Inr m"
      and b: "\<not> (is_fresh_in (data st) h m \<and> \<not> forceRefresh opts)"
      and c: "processTags e (file_ext e h) h (path_join e mp h) (getCategory h cats) = Inl err"
      and d: "processFiles_step e mp cats opts h st =
         st\<lparr>calls := calls st @ [path_join e mp h], data := obj_set (data st) h (error_record err)\<rparr>"
    have "processFiles_step e mp cats opts h st' =
         st'\<lparr>calls := calls st' @ [path_join e mp h], data := obj_set (data st') h (error_record err)\<rparr>"
      using a b c same by (simp add: processFiles_step_def processFile_extract_fail)
    with d assms show ?thesis by (simp add: obj_get_set)
  next
    fix m td
    assume a: "fs_stat e (path_join e mp h) = Inr m"
      and b: "\<not> (is_fresh_in (data st) h m \<and> \<not> forceRefresh opts)"
      and c: "processTags e (file_ext e h) h (path_join e mp h) (getCategory h cats) = Inr td"
      and d: "processFiles_step e mp cats opts h st =
         st\<lparr>calls := calls st @ [path_join e mp h],
            data := obj_set (data st) h (new_record e td (getCategory h cats) h m (file_ext e h))\<rparr>"
    have "processFiles_step e mp cats opts h st' =
         st'\<lparr>calls := calls st' @ [path_join e mp h],
            data := obj_set (data st') h (new_record e td (getCategory h cats) h m (file_ext e h))\<rparr>"
      using a b c same by (simp add: processFiles_step_def processFile_extract_ok)
    with d assms show ?thesis by (simp add: obj_get_set)
  qed
qed

lemma processFiles_without:
  "\<forall>g. g \<noteq> f \<longrightarrow> obj_get (data st) g = obj_get (data st') g \<Longrightarrow>
   \<forall>g. g \<noteq> f \<longrightarrow>
     obj_get (data (processFiles e mp files cats opts st)) g =
     obj_get (data (processFiles e mp (removeAll f files) cats opts st')) g"
proof (induction files arbitrary: st st')
  case Nil
  then show ?case by simp
next
  case (Cons h files)
  show ?case
  proof (cases "h = f")
    case True
    have "\<forall>g. g \<noteq> f \<longrightarrow> obj_get (data (processFiles_step e mp cats opts f st)) g = obj_get (data st') g"
      using Cons.prems by (simp add: step_frame)
    from Cons.IH [OF this] True show ?thesis
      by (simp add: processFiles_Cons del: processFiles.simps(2))
  next
    case False
    have "\<forall>g. g \<noteq> f \<longrightarrow>
      obj_get (data (processFiles_step e mp cats opts h st)) g =
      obj_get (data (processFiles_step e mp cats opts h st')) g"
      using step_agree [OF Cons.prems False] .
    from Cons.IH [OF this] False show ?thesis
      by (simp add: processFiles_Cons del: processFiles.simps(2))
  qed
qed

text \<open>A file whose extraction fails is never fresh afterwards and holds the error record.\<close>

lemma error_record_fields:
  "r_mtime (error_record err) = None" "r_file (error_record err) = None"
  "r_error (error_record err) = Some (error_string err)" "r_tags (error_record err) = None"
  by (simp_all add: error_record_def empty_record_def)

lemma step_failing_file:
  assumes st: "fs_stat e (path_join e mp f) = Inr m"
    and ex: "processTags e (file_ext e f) f (path_join e mp f) (getCategory f cats) = Inl err"
    and ns: "not_skipped opts (data st) f m"
  shows "obj_get (data (processFiles_step e mp cats opts f st)) f = Some (error_record err)"
    and "not_skipped opts (data (processFiles_step e mp cats opts f st)) f m"
proof -
  have nf: "\<not> (is_fresh_in (data st) f m \<and> \<not> forceRefresh opts)"
    using ns by (auto simp: not_skipped_def)
  have eq: "processFiles_step e mp cats opts f st =
      st\<lparr>calls := calls st @ [path_join e mp f], data := obj_set (data st) f (error_record err)\<rparr>"
    using processFile_extract_fail [OF st nf ex] by (simp add: processFiles_step_def)
  have g: "obj_get (obj_set (data st) f (error_record err)) f = Some (error_record err)"
    by (simp add: obj_get_set)
  show "obj_get (data (processFiles_step e mp cats opts f st)) f = Some (error_record err)"
    using g by (simp add: eq)
  have "\<not> is_fresh_in (obj_set (data st) f (error_record err)) f m"
    using g by (simp add: is_fresh_in_iff error_record_fields)
  then show "not_skipped opts (data (processFiles_step e mp cats opts f st)) f m"
    by (simp add: eq not_skipped_def)
qed

lemma processFiles_failing_file:
  assumes st: "fs_stat e (path_join e mp f) = Inr m"
    and ex: "processTags e (file_ext e f) f (path_join e mp f) (getCategory f cats) = Inl err"
  shows "not_skipped opts (data st) f m \<Longrightarrow>
     obj_get (data st) f = Some (error_record err) \<or> f \<in> set files \<Longrightarrow>
     obj_get (data (processFiles e mp files cats opts st)) f = Some (error_record err)"
proof (induction files arbitrary: st)
  case Nil
  then show ?case by simp
next
  case (Cons h files)
  let ?st1 = "processFiles_step e mp cats opts h st"
  have "not_skipped opts (data ?st1) f m \<and>
        (obj_get (data ?st1) f = Some (error_record err) \<or> f \<in> set files)"
  proof (cases "h = f")
    case True
    then show ?thesis using step_failing_file [OF st ex Cons.prems(1)] by simp
  next
    case False
    then have data_at: "obj_get (data ?st1) f = obj_get (data st) f" by (simp add: step_frame)
    then have "not_skipped opts (data ?st1) f m"
      using Cons.prems(1) by (simp add: not_skipped_def is_fresh_in_iff)
    moreover have "obj_get (data ?st1) f = Some (error_record err) \<or> f \<in> set files"
      using Cons.prems(2) False data_at by auto
    ultimately show ?thesis by simp
  qed
  with Cons.IH [of ?st1] show ?case
    by (simp add: processFiles_Cons del: processFiles.simps(2))
qed

text \<open>
  C7: \<open>processFiles\<close> always returns (it has no error result). When the extractor fails
  on a file of the batch that is not skipped as fresh, the record mapping holds for that
  path the error-only record with the failure's text, and every other path gets exactly
  the record it gets from the batch without the failing file.
\<close>

theorem processFiles_isolates_failure:
  assumes "f \<in> set files"
    and "fs_stat e (path_join e mp f) = Inr m"
    and "processTags e (file_ext e f) f (path_join e mp f) (getCategory f cats) = Inl err"
    and "forceRefresh opts \<or> \<not> (\<exists>r. obj_get (data st) f = Some r \<and> r_mtime r = Some m)"
  shows "obj_get (data (processFiles e mp files cats opts st)) f =
           Some (empty_record\<lparr>r_error := Some (error_string err)\<rparr>) \<and>
         (\<forall>g. g \<noteq> f \<longrightarrow>
            obj_get (data (processFiles e mp files cats opts st)) g =
            obj_get (data (processFiles e mp (removeAll f files) cats opts st)) g)"
proof -
  have ns: "not_skipped opts (data st) f m"
    using assms(4) by (simp add: not_skipped_def is_fresh_in_iff)
  have "obj_get (data (processFiles e mp files cats opts st)) f = Some (error_record err)"
    using processFiles_failing_file [OF assms(2) assms(3) ns] assms(1) by simp
  moreover have "\<forall>g. g \<noteq> f \<longrightarrow>
            obj_get (data (processFiles e mp files cats opts st)) g =
            obj_get (data (processFiles e mp (removeAll f files) cats opts st)) g"
    by (rule processFiles_without) simp
  ultimately show ?thesis unfolding error_record_def by blast
qed

theorem processFiles_isolates_failure_witness:
  "obj_get (data (processFiles ex_env ''/m'' [''rock/a.mp3'', ''rock/bad.mp3'', ''rock/b.mp3''] []
      ex_options ex_empty_state)) ''rock/bad.mp3'' =
     Some (empty_record\<lparr>r_error := Some ''Error: bad header''\<rparr>) \<and>
   obj_get (data (processFiles ex_env ''/m'' [''rock/a.mp3'', ''rock/bad.mp3'', ''rock/b.mp3''] []
      ex_options ex_empty_state)) ''rock/b.mp3'' =
   obj_get (data (processFiles ex_env ''/m'' [''rock/a.mp3'', ''rock/b.mp3''] []
      ex_options ex_empty_state)) ''rock/b.mp3''"
proof -
  let ?err = "\<lparr>err_name = ''Error'', err_code = None, err_message = ''bad header''\<rparr>"
  have 1: "''rock/bad.mp3'' \<in> set [''rock/a.mp3'', ''rock/bad.mp3'', ''rock/b.mp3'']" by simp
  have 2: "fs_stat ex_env (path_join ex_env ''/m'' ''rock/bad.mp3'') = Inr 7"
    by (simp add: ex_env_def)
  have 3: "processTags ex_env (file_ext ex_env ''rock/bad.mp3'') ''rock/bad.mp3''
      (path_join ex_env ''/m'' ''rock/bad.mp3'') (getCategory ''rock/bad.mp3'' []) = Inl ?err"
    by (simp add: ex_env_def)
  have 4: "forceRefresh ex_options \<or>
      \<not> (\<exists>r. obj_get (data ex_empty_state) ''rock/bad.mp3'' = Some r \<and> r_mtime r = Some 7)"
    by (simp add: ex_empty_state_def obj_get_def)
  have 5: "removeAll ''rock/bad.mp3'' [''rock/a.mp3'', ''rock/bad.mp3'', ''rock/b.mp3''] =
      [''rock/a.mp3'', ''rock/b.mp3'']" by simp
  have 6: "error_string ?err = ''Error: bad header''" by (simp add: error_string_def)
  from processFiles_isolates_failure [OF 1 2 3 4] show ?thesis
    unfolding 5 6 by simp
qed


section \<open>The existence check after a failed extraction\<close>

lemma checkFileExistence_loop_no_file:
  "(k, r) \<in> set ents \<Longrightarrow> r_file r = None \<Longrightarrow>
   \<exists>st' er. checkFileExistence_loop e mp ents st = (st', Inl er)"
proof (induction ents arbitrary: st)
  case Nil
  then show ?case by simp
next
  case (Cons en ents)
  obtain key v where en: "en = (key, v)" by (cases en)
  show ?case
  proof (cases "r_file v")
    case None
    then show ?thesis by (simp add: en path_join_arg_def)
  next
    case (Some p)
    with Cons.prems en have mem: "(k, r) \<in> set ents" by auto
    show ?thesis
    proof (cases "fileExists e (path_join e mp p)")
      case (Inl er)
      with Some show ?thesis by (simp add: en path_join_arg_def)
    next
      case (Inr ex)
      from Cons.IH [OF mem Cons.prems(2)] Some Inr show ?thesis
        by (simp add: en path_join_arg_def)
    qed
  qed
qed

lemma checkFileExistence_no_file:
  "(k, r) \<in> set (data st) \<Longrightarrow> r_file r = None \<Longrightarrow>
   \<exists>st' er. checkFileExistence e mp st = (st', Inl er)"
  unfolding checkFileExistence_def by (rule checkFileExistence_loop_no_file)

lemma checkFileExistence_first_no_file:
  "data st = (k, error_record err) # rest \<Longrightarrow>
   checkFileExistence e mp st =
     (st, Inl (TypeError ''The path argument must be of type string. Received undefined''))"
  by (simp add: checkFileExistence_def path_join_arg_def error_record_fields)

lemma obj_get_in_set: "obj_get ob k = Some v \<Longrightarrow> (k, v) \<in> set ob"
  by (simp add: obj_get_def map_of_SomeD)

lemma indexPath_scan_extraction_failure:
  assumes "f \<in> set (findFiles e mp)"
    and "fs_stat e (path_join e mp f) = Inr m"
    and "processTags e (file_ext e f) f (path_join e mp f) (getCategory f cats) = Inl err"
    and "not_skipped opts (data st) f m"
  shows "\<exists>st' er. indexPath_scan e cfg mp cats opts (st, dk) = ((st', dk), Inl er)"
proof -
  let ?st1 = "processFiles e mp (findFiles e mp) cats opts st"
  have "obj_get (data ?st1) f = Some (error_record err)"
    using processFiles_failing_file [OF assms(2) assms(3) assms(4)] assms(1) by simp
  then have "(f, error_record err) \<in> set (data ?st1)" by (rule obj_get_in_set)
  then obtain st' er where "checkFileExistence e mp ?st1 = (st', Inl er)"
    using checkFileExistence_no_file [of f "error_record err" ?st1 e mp]
    by (auto simp: error_record_fields)
  then show ?thesis by (simp add: indexPath_scan_def Let_def)
qed

text \<open>
  C10: when the record mapping holds a record with no \<open>file\<close> field, as the error-only
  record is, \<open>checkFileExistence\<close> throws; with such a record first in the mapping the
  error is the \<open>TypeError\<close> of \<open>path.join\<close> and nothing has been pruned. So when the
  extractor fails on one file found by the scan (and the file is not skipped as fresh),
  \<open>indexPath\<close> ends with an error and leaves the persisted caches as they were.
\<close>

theorem checkFileExistence_throws_on_error_record:
  "((k, r) \<in> set (data st) \<and> r_file r = None \<longrightarrow>
      (\<exists>st' er. checkFileExistence e mp st = (st', Inl er))) \<and>
   (data st = (k, error_record err) # rest \<longrightarrow>
      checkFileExistence e mp st =
        (st, Inl (TypeError ''The path argument must be of type string. Received undefined''))) \<and>
   (readCache (file_caches dk) (fileCachePath cfg) = Inr cached \<and>
    f \<in> set (findFiles e mp) \<and> fs_stat e (path_join e mp f) = Inr m \<and>
    processTags e (file_ext e f) f (path_join e mp f) (getCategory f cats) = Inl err \<and>
    (forceRefresh opts \<or> \<not> is_fresh_in cached f m) \<longrightarrow>
      (\<exists>st' er. indexPath e cfg mp cats opts False (st, dk) = ((st', dk), Inl er)))"
proof (intro conjI impI)
  assume "(k, r) \<in> set (data st) \<and> r_file r = None"
  then show "\<exists>st' er. checkFileExistence e mp st = (st', Inl er)"
    using checkFileExistence_no_file by blast
next
  assume "data st = (k, error_record err) # rest"
  then show "checkFileExistence e mp st =
        (st, Inl (TypeError ''The path argument must be of type string. Received undefined''))"
    by (rule checkFileExistence_first_no_file)
next
  assume a: "readCache (file_caches dk) (fileCachePath cfg) = Inr cached \<and>
    f \<in> set (findFiles e mp) \<and> fs_stat e (path_join e mp f) = Inr m \<and>
    processTags e (file_ext e f) f (path_join e mp f) (getCategory f cats) = Inl err \<and>
    (forceRefresh opts \<or> \<not> is_fresh_in cached f m)"
  then have ns: "not_skipped opts (data (st\<lparr>data := cached\<rparr>)) f m"
    by (simp add: not_skipped_def)
  from a obtain st' er where
    "indexPath_scan e cfg mp cats opts (st\<lparr>data := cached\<rparr>, dk) = ((st', dk), Inl er)"
    using indexPath_scan_extraction_failure [of f e mp m cats err opts "st\<lparr>data := cached\<rparr>" cfg dk] ns
    by blast
  with a show "\<exists>st' er. indexPath e cfg mp cats opts False (st, dk) = ((st', dk), Inl er)"
    by (simp add: indexPath_def Let_def)
qed

theorem checkFileExistence_throws_on_error_record_witness:
  "(\<exists>st' er. checkFileExistence ex_env ''/m''
      (ex_empty_state\<lparr>data := [(''rock/a.mp3'', ex_record_a), (''rock/bad.mp3'', error_record ex_error)]\<rparr>) =
        (st', Inl er)) \<and>
   checkFileExistence ex_env ''/m''
      (ex_empty_state\<lparr>data := [(''rock/bad.mp3'', error_record ex_error), (''rock/a.mp3'', ex_record_a)]\<rparr>) =
     (ex_empty_state\<lparr>data := [(''rock/bad.mp3'', error_record ex_error), (''rock/a.mp3'', ex_record_a)]\<rparr>,
      Inl (TypeError ''The path argument must be of type string. Received undefined'')) \<and>
   (\<exists>st' er. indexPath ex_env_bad ex_config ''/m'' [ex_primary, ex_secondary] ex_options False
      (ex_empty_state, ex_disk) = ((st', ex_disk), Inl er))"
proof -
  have 1: "(''rock/bad.mp3'', error_record ex_error) \<in>
      set (data (ex_empty_state\<lparr>data := [(''rock/a.mp3'', ex_record_a), (''rock/bad.mp3'', error_record ex_error)]\<rparr>))
    \<and> r_file (error_record ex_error) = None"
    by (simp add: error_record_fields)
  have 2: "data (ex_empty_state\<lparr>data := [(''rock/bad.mp3'', error_record ex_error), (''rock/a.mp3'', ex_record_a)]\<rparr>) =
      (''rock/bad.mp3'', error_record ex_error) # [(''rock/a.mp3'', ex_record_a)]"
    by simp
  have 3: "readCache (file_caches ex_disk) (fileCachePath ex_config) = Inr [] \<and>
    ''rock/bad.mp3'' \<in> set (findFiles ex_env_bad ''/m'') \<and>
    fs_stat ex_env_bad (path_join ex_env_bad ''/m'' ''rock/bad.mp3'') = Inr 7 \<and>
    processTags ex_env_bad (file_ext ex_env_bad ''rock/bad.mp3'') ''rock/bad.mp3''
      (path_join ex_env_bad ''/m'' ''rock/bad.mp3'')
      (getCategory ''rock/bad.mp3'' [ex_primary, ex_secondary]) = Inl ex_error \<and>
    (forceRefresh ex_options \<or> \<not> is_fresh_in [] ''rock/bad.mp3'' 7)"
    by (simp add: ex_disk_def readCache_missing findFiles_def ex_env_bad_def ex_env_def
        ex_error_def is_fresh_in_def obj_get_def)
  note t = checkFileExistence_throws_on_error_record
  from t [of "''rock/bad.mp3''" "error_record ex_error"
      "ex_empty_state\<lparr>data := [(''rock/a.mp3'', ex_record_a), (''rock/bad.mp3'', error_record ex_error)]\<rparr>"
      ex_env "''/m''"] 1
  have a: "\<exists>st' er. checkFileExistence ex_env ''/m''
      (ex_empty_state\<lparr>data := [(''rock/a.mp3'', ex_record_a), (''rock/bad.mp3'', error_record ex_error)]\<rparr>) =
        (st', Inl er)" by blast
  from t [of "''rock/bad.mp3''" "error_record ex_error"
      "ex_empty_state\<lparr>data := [(''rock/bad.mp3'', error_record ex_error), (''rock/a.mp3'', ex_record_a)]\<rparr>"
      ex_env "''/m''" ex_error "[(''rock/a.mp3'', ex_record_a)]"] 2
  have b: "checkFileExistence ex_env ''/m''
      (ex_empty_state\<lparr>data := [(''rock/bad.mp3'', error_record ex_error), (''rock/a.mp3'', ex_record_a)]\<rparr>) =
     (ex_empty_state\<lparr>data := [(''rock/bad.mp3'', error_record ex_error), (''rock/a.mp3'', ex_record_a)]\<rparr>,
      Inl (TypeError ''The path argument must be of type string. Received undefined''))" by blast
  from t [of "''rock/bad.mp3''" "error_record ex_error" ex_empty_state ex_env_bad "''/m''" ex_error "[]"
      ex_disk ex_config "[]" "''rock/bad.mp3''" 7
      "[ex_primary, ex_secondary]" ex_options] 3
  have c: "\<exists>st' er. indexPath ex_env_bad ex_config ''/m'' [ex_primary, ex_secondary] ex_options False
      (ex_empty_state, ex_disk) = ((st', ex_disk), Inl er)" by blast
  show ?thesis using a b c by blast
qed


section \<open>Two runs over an unchanged file system\<close>






























section \<open>The comparator of \<open>orderBy\<close> on keys of one kind\<close>

lemma compareAscending_num:
  "is_num a \<Longrightarrow> is_num b \<Longrightarrow>
   (compareAscending a b < 0 \<longleftrightarrow> num_rank a < num_rank b) \<and>
   (compareAscending a b = 0 \<longleftrightarrow> num_rank a = num_rank b)"
  by (cases a; cases b) (auto simp: compareAscending_def Let_def less_prod_def)

lemma compareAscending_str:
  "is_str a \<Longrightarrow> is_str b \<Longrightarrow>
   (compareAscending a b < 0 \<longleftrightarrow> str_rank a < str_rank b) \<and>
   (compareAscending a b = 0 \<longleftrightarrow> str_rank a = str_rank b)"
  by (cases a; cases b) (auto simp: compareAscending_def Let_def less_prod_def)

lemma lex_step:
  fixes k1 k1' :: "'a::linorder" and rest rest' :: "'b::linorder"
  assumes "(c < 0 \<longleftrightarrow> k1 < k1') \<and> (c = 0 \<longleftrightarrow> k1 = k1')"
    and "r \<le> 0 \<longleftrightarrow> rest \<le> rest'"
  shows "(if c \<noteq> 0 then c else r) \<le> (0::int) \<longleftrightarrow> (k1, rest) \<le> (k1', rest')"
  using assms by (auto simp: less_eq_prod_def)

lemma compareMultiple_album:
  assumes "album_typed (snd x)" and "album_typed (snd y)"
  shows "compareMultiple (album_criteria x) (album_criteria y) \<le> 0 \<longleftrightarrow> leaf_key x \<le> leaf_key y"
proof -
  let ?a1 = "container_index (snd x)" and ?b1 = "container_index (snd y)"
  let ?a2 = "item_index (snd x)" and ?b2 = "item_index (snd y)"
  let ?a3 = "record_path (snd x)" and ?b3 = "record_path (snd y)"
  let ?a4 = "display_title (snd x)" and ?b4 = "display_title (snd y)"
  have c1: "(compareAscending ?a1 ?b1 < 0 \<longleftrightarrow> num_rank ?a1 < num_rank ?b1) \<and>
            (compareAscending ?a1 ?b1 = 0 \<longleftrightarrow> num_rank ?a1 = num_rank ?b1)"
    using assms by (intro compareAscending_num) (simp_all add: album_typed_def)
  have c2: "(compareAscending ?a2 ?b2 < 0 \<longleftrightarrow> num_rank ?a2 < num_rank ?b2) \<and>
            (compareAscending ?a2 ?b2 = 0 \<longleftrightarrow> num_rank ?a2 = num_rank ?b2)"
    using assms by (intro compareAscending_num) (simp_all add: album_typed_def)
  have c3: "(compareAscending ?a3 ?b3 < 0 \<longleftrightarrow> str_rank ?a3 < str_rank ?b3) \<and>
            (compareAscending ?a3 ?b3 = 0 \<longleftrightarrow> str_rank ?a3 = str_rank ?b3)"
    using assms by (intro compareAscending_str) (simp_all add: album_typed_def)
  have c4: "(compareAscending ?a4 ?b4 < 0 \<longleftrightarrow> str_rank ?a4 < str_rank ?b4) \<and>
            (compareAscending ?a4 ?b4 = 0 \<longleftrightarrow> str_rank ?a4 = str_rank ?b4)"
    using assms by (intro compareAscending_str) (simp_all add: album_typed_def)
  have l4: "(if compareAscending ?a4 ?b4 \<noteq> 0 then compareAscending ?a4 ?b4 else 0) \<le> 0
            \<longleftrightarrow> str_rank ?a4 \<le> str_rank ?b4"
    using c4 by (auto simp: less_le)
  note l3 = lex_step [OF c3 l4]
  note l2 = lex_step [OF c2 l3]
  note l1 = lex_step [OF c1 l2]
  have "compareMultiple (album_criteria x) (album_criteria y) =
        (if compareAscending ?a1 ?b1 \<noteq> 0 then compareAscending ?a1 ?b1
         else if compareAscending ?a2 ?b2 \<noteq> 0 then compareAscending ?a2 ?b2
         else if compareAscending ?a3 ?b3 \<noteq> 0 then compareAscending ?a3 ?b3
         else if compareAscending ?a4 ?b4 \<noteq> 0 then compareAscending ?a4 ?b4 else 0)"
    by (simp add: album_criteria_def container_index_def item_index_def record_path_def
        display_title_def Let_def)
  with l1 show ?thesis by (simp add: leaf_key_def)
qed

lemma compareMultiple_key:
  "compareMultiple [JStr a] [JStr b] \<le> 0 \<longleftrightarrow> a \<le> b"
  by (auto simp: compareAscending_def Let_def)

lemma insert_by_key: "insert_by (\<lambda>en. [JStr (fst en)]) x ys = insort_key fst x ys"
  by (induction ys) (simp_all add: compareMultiple_key del: compareMultiple.simps)

lemma orderBy_key: "orderBy xs (\<lambda>en. [JStr (fst en)]) = sort_key fst xs"
  by (induction xs) (simp_all add: orderBy_def sort_key_def insert_by_key)

lemma insert_by_album:
  "album_typed (snd x) \<Longrightarrow> \<forall>y \<in> set ys. album_typed (snd y) \<Longrightarrow>
   insert_by album_criteria x ys = insort_key leaf_key x ys"
  by (induction ys) (simp_all add: compareMultiple_album)

lemma orderBy_album:
  "\<forall>x \<in> set xs. album_typed (snd x) \<Longrightarrow> orderBy xs album_criteria = sort_key leaf_key xs"
proof (induction xs)
  case Nil
  then show ?case by (simp add: orderBy_def)
next
  case (Cons x xs)
  then have ih: "foldr (insert_by album_criteria) xs [] = sort_key leaf_key xs"
    by (simp add: orderBy_def)
  have "\<forall>y \<in> set (sort_key leaf_key xs). album_typed (snd y)"
    using Cons.prems by simp
  with Cons.prems ih show ?case
    by (simp add: orderBy_def insert_by_album sort_key_def)
qed

lemma distinct_map_insort_key:
  "distinct (map g (insort_key f x xs)) = (g x \<notin> g ` set xs \<and> distinct (map g xs))"
  by (induction xs) (auto simp: set_insort_key)

lemma distinct_map_sort_key: "distinct (map g (sort_key f xs)) = distinct (map g xs)"
  by (induction xs) (simp_all add: distinct_map_insort_key)


section \<open>The groups of one level\<close>

lemma obj_set_Nil: "obj_set [] k v = [(k, v)]"
  by (simp add: obj_set_def obj_keys_def)

lemma obj_set_all:
  assumes "\<forall>g \<in> set acc. P (snd g)" and "P v"
  shows "\<forall>g \<in> set (obj_set acc k v). P (snd g)"
proof
  fix g assume "g \<in> set (obj_set acc k v)"
  then have "g = (k, v) \<or> g \<in> set acc" using set_obj_set [of acc k v] by blast
  with assms show "P (snd g)" by auto
qed

lemma collect_step_members:
  assumes inv: "\<forall>g \<in> set acc. set (snd (snd g)) \<subseteq> S \<and> distinct (obj_keys (snd (snd g)))"
    and en: "en \<in> S"
  shows "\<forall>g \<in> set (collect_step taxKey acc en).
           set (snd (snd g)) \<subseteq> S \<and> distinct (obj_keys (snd (snd g)))"
proof -
  let ?k = "js_toString (getTaxonomyValue (all_tags (snd en)) taxKey)"
  let ?P = "\<lambda>nd :: jsval \<times> file_record obj. set (snd nd) \<subseteq> S \<and> distinct (obj_keys (snd nd))"
  show ?thesis
  proof (cases "obj_get acc ?k")
    case None
    then have eq: "collect_step taxKey acc en =
        obj_set acc ?k (getTaxonomyValue (all_tags (snd en)) taxKey, [en])"
      by (simp add: collect_step_def Let_def obj_set_Nil)
    have "?P (getTaxonomyValue (all_tags (snd en)) taxKey, [en])"
      using en by (simp add: obj_keys_def)
    with inv show ?thesis unfolding eq by (intro obj_set_all [where P = ?P]) simp_all
  next
    case (Some nd)
    then have eq: "collect_step taxKey acc en =
        obj_set acc ?k (fst nd, obj_set (snd nd) (fst en) (snd en))"
      by (simp add: collect_step_def Let_def)
    have mem: "(?k, nd) \<in> set acc" using Some by (rule obj_get_in_set)
    from inv mem have "set (snd (snd (?k, nd))) \<subseteq> S \<and> distinct (obj_keys (snd (snd (?k, nd))))"
      by (rule bspec)
    then have nd: "set (snd nd) \<subseteq> S" "distinct (obj_keys (snd nd))" by simp_all
    have "set (obj_set (snd nd) (fst en) (snd en)) \<subseteq> insert en (set (snd nd))"
      using set_obj_set [of "snd nd" "fst en" "snd en"] by simp
    with nd en have "?P (fst nd, obj_set (snd nd) (fst en) (snd en))"
      by (auto simp: distinct_obj_set)
    with inv show ?thesis unfolding eq by (intro obj_set_all [where P = ?P]) simp_all
  qed
qed

lemma collect_fold_members:
  "\<forall>g \<in> set acc. set (snd (snd g)) \<subseteq> S \<and> distinct (obj_keys (snd (snd g))) \<Longrightarrow>
   set es \<subseteq> S \<Longrightarrow>
   \<forall>g \<in> set (foldl (collect_step taxKey) acc es).
      set (snd (snd g)) \<subseteq> S \<and> distinct (obj_keys (snd (snd g)))"
proof (induction es arbitrary: acc)
  case Nil
  then show ?case by simp
next
  case (Cons en es)
  have "\<forall>g \<in> set (collect_step taxKey acc en).
           set (snd (snd g)) \<subseteq> S \<and> distinct (obj_keys (snd (snd g)))"
    using Cons.prems by (intro collect_step_members) auto
  from Cons.IH [OF this] Cons.prems(2) show ?case by simp
qed

lemma collect_groups_members:
  "g \<in> set (collect_groups dataFiles taxKey) \<Longrightarrow>
   set (snd (snd g)) \<subseteq> set dataFiles \<and> distinct (obj_keys (snd (snd g)))"
  using collect_fold_members [of "[]" "set dataFiles" dataFiles taxKey]
  by (simp add: collect_groups_def)

lemma collect_step_distinct:
  "distinct (obj_keys acc) \<Longrightarrow> distinct (obj_keys (collect_step taxKey acc en))"
  by (simp add: collect_step_def Let_def distinct_obj_set split: option.splits)

lemma collect_groups_distinct: "distinct (obj_keys (collect_groups dataFiles taxKey))"
proof -
  have "distinct (obj_keys acc) \<Longrightarrow> distinct (obj_keys (foldl (collect_step taxKey) acc es))"
    for acc es
    by (induction es arbitrary: acc) (simp_all add: collect_step_distinct)
  from this [of "[]" dataFiles] show ?thesis by (simp add: collect_groups_def obj_keys_def)
qed

section \<open>The order of leaf members\<close>

lemma sortAlbumFiles_sorted:
  assumes d: "distinct (obj_keys ms)" and p: "\<forall>en \<in> set ms. path_entry en"
  shows "sortAlbumFiles ms = sort_key leaf_key ms"
proof -
  have "orderBy ms album_criteria = sort_key leaf_key ms"
    using p by (intro orderBy_album) (simp add: path_entry_def)
  moreover have "distinct (map fst (sort_key leaf_key ms))"
    using d by (simp add: distinct_map_sort_key obj_keys_def)
  moreover have "\<forall>k \<in> fst ` set (sort_key leaf_key ms). \<not> is_array_index k"
    using p by (auto simp: path_entry_def)
  ultimately show ?thesis by (simp add: sortAlbumFiles_def fromEntries_plain)
qed

lemma end_node_ordered:
  assumes d: "distinct (obj_keys ms)" and p: "\<forall>en \<in> set ms. path_entry en"
  shows "leaves_ordered (end_node taxKey (v, ms))"
proof -
  let ?its = "sort_key leaf_key ms"
  have its: "sortAlbumFiles ms = ?its" using d p by (rule sortAlbumFiles_sorted)
  have srt: "sorted (map leaf_key ?its)" by (rule sorted_sort_key)
  have first: "fst en \<noteq> []" if "?its = en # rest" for en rest
  proof -
    have "en \<in> set ?its" using that by simp
    then have "en \<in> set ms" by simp
    with p show ?thesis by (simp add: path_entry_def)
  qed
  show ?thesis
  proof (cases ?its)
    case Nil
    with srt show ?thesis by (simp add: end_node_def its Let_def)
  next
    case (Cons en rest)
    with first [OF Cons] srt show ?thesis
      by (cases en) (simp add: end_node_def its Let_def)
  qed
qed

lemma set_orderBy: "set (orderBy xs crit) = set xs"
proof -
  have "set (insert_by crit x ys) = insert x (set ys)" for x ys
    by (induction ys) auto
  then show ?thesis by (induction xs) (simp_all add: orderBy_def)
qed

lemma set_sortTaxonomyItems: "set (sortTaxonomyItems its) \<subseteq> set its"
  using set_fromEntries [of "orderBy its (\<lambda>en. [JStr (fst en)])"]
  by (simp add: sortTaxonomyItems_def set_orderBy)

lemma collect_leaves_ordered:
  "distinct (obj_keys dataFiles) \<Longrightarrow> \<forall>en \<in> set dataFiles. path_entry en \<Longrightarrow>
   \<forall>en \<in> set (collectMediaLibraryTaxonomy dataFiles taxKey remaining). leaves_ordered (snd en)"
proof (induction remaining arbitrary: dataFiles taxKey)
  case Nil
  show ?case
  proof
    fix en assume "en \<in> set (collectMediaLibraryTaxonomy dataFiles taxKey [])"
    then obtain g where g: "g \<in> set (collect_groups dataFiles taxKey)"
      and en: "en = (fst g, end_node taxKey (snd g))" by auto
    from collect_groups_members [OF g] Nil.prems
    have "distinct (obj_keys (snd (snd g)))" "\<forall>x \<in> set (snd (snd g)). path_entry x" by auto
    then have "leaves_ordered (end_node taxKey (fst (snd g), snd (snd g)))"
      by (rule end_node_ordered)
    then show "leaves_ordered (snd en)" by (simp add: en)
  qed
next
  case (Cons k remaining)
  show ?case
  proof
    fix en assume "en \<in> set (collectMediaLibraryTaxonomy dataFiles taxKey (k # remaining))"
    then obtain g where g: "g \<in> set (collect_groups dataFiles taxKey)"
      and en: "en = (fst g, Branch taxKey (fst (snd g)) (fst (snd g) = JStr NONE)
          (sortTaxonomyItems (collectMediaLibraryTaxonomy (snd (snd g)) k remaining)))" by auto
    from collect_groups_members [OF g] Cons.prems
    have "distinct (obj_keys (snd (snd g)))" "\<forall>x \<in> set (snd (snd g)). path_entry x" by auto
    from Cons.IH [OF this]
    have "\<forall>c \<in> set (collectMediaLibraryTaxonomy (snd (snd g)) k remaining). leaves_ordered (snd c)" .
    with set_sortTaxonomyItems
    have "\<forall>c \<in> set (sortTaxonomyItems (collectMediaLibraryTaxonomy (snd (snd g)) k remaining)).
        leaves_ordered (snd c)" by blast
    then show "leaves_ordered (snd en)" by (simp add: en list_all_iff)
  qed
qed

text \<open>
  C5: for records stored under file paths, with distinct paths and with indices, path
  and title of the kinds the extractor gives, every leaf of the tree the builder returns
  has its members in ascending order of container index, then item index, then path,
  then display title (a missing value last), and its representative attributes are the
  attributes of the first member in that order, without title, track and disk: they are
  read from that one member.
\<close>

theorem collectMediaLibraryTaxonomy_leaf_order:
  assumes "distinct (obj_keys dataFiles)" and "list_all path_entry dataFiles"
  shows "list_all (\<lambda>en. leaves_ordered (snd en))
           (collectMediaLibraryTaxonomy dataFiles taxKey remainingTaxKeys) \<and>
         (\<forall>g \<in> set (collect_groups dataFiles taxKey).
            end_node taxKey (snd g) =
              Leaf taxKey (fst (snd g)) (fst (snd g) = JStr NONE)
                (sort_key leaf_key (snd (snd g)))
                (case sort_key leaf_key (snd (snd g)) of
                   [] \<Rightarrow> None
                 | en # rest \<Rightarrow> Some (omit (all_tags (snd en)) [''title'', ''track'', ''disk''])))"
proof
  show "list_all (\<lambda>en. leaves_ordered (snd en))
           (collectMediaLibraryTaxonomy dataFiles taxKey remainingTaxKeys)"
    using collect_leaves_ordered [of dataFiles taxKey remainingTaxKeys] assms
    by (simp add: list_all_iff)
next
  show "\<forall>g \<in> set (collect_groups dataFiles taxKey).
            end_node taxKey (snd g) =
              Leaf taxKey (fst (snd g)) (fst (snd g) = JStr NONE)
                (sort_key leaf_key (snd (snd g)))
                (case sort_key leaf_key (snd (snd g)) of
                   [] \<Rightarrow> None
                 | en # rest \<Rightarrow> Some (omit (all_tags (snd en)) [''title'', ''track'', ''disk'']))"
  proof
    fix g assume g: "g \<in> set (collect_groups dataFiles taxKey)"
    from collect_groups_members [OF g] assms
    have d: "distinct (obj_keys (snd (snd g)))" and p: "\<forall>x \<in> set (snd (snd g)). path_entry x"
      by (auto simp: list_all_iff)
    have its: "sortAlbumFiles (snd (snd g)) = sort_key leaf_key (snd (snd g))"
      using d p by (rule sortAlbumFiles_sorted)
    have first: "fst en \<noteq> []" if "sort_key leaf_key (snd (snd g)) = en # rest" for en rest
    proof -
      have "en \<in> set (sort_key leaf_key (snd (snd g)))" using that by simp
      then have "en \<in> set (snd (snd g))" by simp
      with p show ?thesis by (simp add: path_entry_def)
    qed
    show "end_node taxKey (snd g) =
              Leaf taxKey (fst (snd g)) (fst (snd g) = JStr NONE)
                (sort_key leaf_key (snd (snd g)))
                (case sort_key leaf_key (snd (snd g)) of
                   [] \<Rightarrow> None
                 | en # rest \<Rightarrow> Some (omit (all_tags (snd en)) [''title'', ''track'', ''disk'']))"
    proof (cases "sort_key leaf_key (snd (snd g))")
      case Nil
      then show ?thesis by (simp add: end_node_def its Let_def)
    next
      case (Cons en rest)
      with first [OF Cons] show ?thesis
        by (cases en) (simp add: end_node_def its Let_def)
    qed
  qed
qed

lemma ex_album_tree:
  "collectMediaLibraryTaxonomy ex_album ''album'' [] =
     [(''Z'', Leaf ''album'' (JStr ''Z'') False
        [(''z/3.mp3'', ex_track ''z/3.mp3'' ''First'' (JNum 1) (JNum 1)),
         (''z/2.mp3'', ex_track ''z/2.mp3'' ''Second'' (JNum 1) (JNum 2)),
         (''z/1.mp3'', ex_track ''z/1.mp3'' ''Bonus'' (JNum 2) JNull)]
        (Some [(''album'', JStr ''Z'')]))]"
  by code_simp

theorem collectMediaLibraryTaxonomy_leaf_order_witness:
  "list_all (\<lambda>en. leaves_ordered (snd en))
     [(''Z'', Leaf ''album'' (JStr ''Z'') False
        [(''z/3.mp3'', ex_track ''z/3.mp3'' ''First'' (JNum 1) (JNum 1)),
         (''z/2.mp3'', ex_track ''z/2.mp3'' ''Second'' (JNum 1) (JNum 2)),
         (''z/1.mp3'', ex_track ''z/1.mp3'' ''Bonus'' (JNum 2) JNull)]
        (Some [(''album'', JStr ''Z'')]))] \<and>
   collectMediaLibraryTaxonomy ex_album ''album'' [] =
     [(''Z'', Leaf ''album'' (JStr ''Z'') False
        [(''z/3.mp3'', ex_track ''z/3.mp3'' ''First'' (JNum 1) (JNum 1)),
         (''z/2.mp3'', ex_track ''z/2.mp3'' ''Second'' (JNum 1) (JNum 2)),
         (''z/1.mp3'', ex_track ''z/1.mp3'' ''Bonus'' (JNum 2) JNull)]
        (Some [(''album'', JStr ''Z'')]))]"
proof -
  have 1: "distinct (obj_keys ex_album)" by code_simp
  have 2: "list_all path_entry ex_album" by code_simp
  from collectMediaLibraryTaxonomy_leaf_order [OF 1 2, of "''album''" "[]"]
  have "list_all (\<lambda>en. leaves_ordered (snd en)) (collectMediaLibraryTaxonomy ex_album ''album'' [])"
    by blast
  then show ?thesis by (simp only: ex_album_tree simp_thms)
qed


section \<open>The order of sibling groups\<close>

lemma sibling_order_rec_imp: "sibling_order_rec ks \<Longrightarrow> sibling_order ks"
proof (induction ks)
  case Nil
  then show ?case by (simp add: sibling_order_def)
next
  case (Cons k ks)
  then have ih: "sibling_order ks" by simp
  show ?case
  proof (cases "is_array_index k")
    case True
    with Cons.prems have "\<forall>a \<in> set ks. is_array_index a \<longrightarrow> dec_val k \<le> dec_val a"
      by (simp add: list_all_iff)
    with ih True show ?thesis by (auto simp: sibling_order_def)
  next
    case False
    with Cons.prems have all: "\<forall>a \<in> set ks. \<not> is_array_index a \<and> k \<le> a"
      by (simp add: list_all_iff)
    then have f: "filter is_array_index ks = []" and n: "filter (\<lambda>k. \<not> is_array_index k) ks = ks"
      by (simp_all add: filter_empty_conv filter_id_conv)
    from ih n have "sorted ks" by (simp add: sibling_order_def)
    with all f n False show ?thesis by (simp add: sibling_order_def)
  qed
qed

lemma sibling_insert_index:
  "sibling_order_rec (obj_keys ob) \<Longrightarrow> is_array_index k \<Longrightarrow>
   sibling_order_rec (obj_keys (obj_insert_index ob k v))"
proof (induction ob k v rule: obj_insert_index.induct)
  case (1 k v)
  then show ?case by (simp add: obj_keys_def)
next
  case (2 k' v' rest k v)
  show ?case
  proof (cases "is_array_index k' \<and> dec_val k' < dec_val k")
    case True
    from "2.prems" have "sibling_order_rec (obj_keys rest)" by (simp add: obj_keys_def)
    with True "2.IH" "2.prems"(2) have ih: "sibling_order_rec (obj_keys (obj_insert_index rest k v))"
      by simp
    have old: "\<forall>a \<in> set (obj_keys rest). is_array_index a \<longrightarrow> dec_val k' \<le> dec_val a"
      using True "2.prems"(1) by (simp add: obj_keys_def list_all_iff)
    have "\<forall>a \<in> set (obj_keys (obj_insert_index rest k v)). is_array_index a \<longrightarrow> dec_val k' \<le> dec_val a"
      unfolding obj_keys_insert_index using True old by auto
    with True ih show ?thesis by (simp add: obj_keys_def list_all_iff)
  next
    case False
    have "\<forall>a \<in> set (k' # obj_keys rest). is_array_index a \<longrightarrow> dec_val k \<le> dec_val a"
    proof (cases "is_array_index k'")
      case True
      with False have "dec_val k \<le> dec_val k'" by simp
      moreover from True "2.prems"(1)
      have "\<forall>a \<in> set (obj_keys rest). is_array_index a \<longrightarrow> dec_val k' \<le> dec_val a"
        by (simp add: obj_keys_def list_all_iff)
      ultimately show ?thesis by auto
    next
      case nidx: False
      with "2.prems"(1) have "\<forall>a \<in> set (obj_keys rest). \<not> is_array_index a"
        by (simp add: obj_keys_def list_all_iff)
      with nidx show ?thesis by simp
    qed
    with False "2.prems" show ?thesis
      by (auto simp: obj_keys_def list_all_iff split: if_splits)
  qed
qed

lemma sibling_append_plain:
  "sibling_order_rec ks \<Longrightarrow> \<not> is_array_index k \<Longrightarrow> \<forall>a \<in> set ks. \<not> is_array_index a \<longrightarrow> a \<le> k \<Longrightarrow>
   sibling_order_rec (ks @ [k])"
  by (induction ks) (auto simp: list_all_iff)

lemma sibling_obj_set:
  assumes "sibling_order_rec (obj_keys ob)"
    and "\<forall>a \<in> set (obj_keys ob). a \<le> k"
  shows "sibling_order_rec (obj_keys (obj_set ob k v))"
proof (cases "k \<in> set (obj_keys ob)")
  case True
  with assms show ?thesis by (simp add: obj_set_def obj_keys_replace)
next
  case False
  show ?thesis
  proof (cases "is_array_index k")
    case True
    with False assms show ?thesis by (simp add: obj_set_def sibling_insert_index)
  next
    case nidx: False
    have "obj_keys (ob @ [(k, v)]) = obj_keys ob @ [k]" by (simp add: obj_keys_def)
    with False nidx assms show ?thesis by (simp add: obj_set_def sibling_append_plain)
  qed
qed

lemma sibling_fold:
  "sibling_order_rec (obj_keys acc) \<Longrightarrow> sorted (map fst es) \<Longrightarrow>
   \<forall>a \<in> set (obj_keys acc). \<forall>b \<in> fst ` set es. a \<le> b \<Longrightarrow>
   sibling_order_rec (obj_keys (foldl (\<lambda>ob e. obj_set ob (fst e) (snd e)) acc es))"
proof (induction es arbitrary: acc)
  case Nil
  then show ?case by simp
next
  case (Cons e es)
  let ?acc = "obj_set acc (fst e) (snd e)"
  have 1: "sibling_order_rec (obj_keys ?acc)"
    using Cons.prems by (intro sibling_obj_set) auto
  have 2: "sorted (map fst es)" using Cons.prems(2) by simp
  have 3: "\<forall>a \<in> set (obj_keys ?acc). \<forall>b \<in> fst ` set es. a \<le> b"
    using Cons.prems(2,3) by (auto simp: set_obj_keys_set)
  from Cons.IH [OF 1 2 3] show ?case by simp
qed

lemma sortTaxonomyItems_order: "sibling_order (obj_keys (sortTaxonomyItems its))"
proof -
  have "sibling_order_rec (obj_keys (fromEntries (sort_key fst its)))"
    unfolding fromEntries_def
    by (rule sibling_fold) (simp_all add: obj_keys_def)
  then show ?thesis
    by (simp add: sortTaxonomyItems_def orderBy_key sibling_order_rec_imp)
qed

lemma collect_siblings_sorted:
  "\<forall>en \<in> set (collectMediaLibraryTaxonomy dataFiles taxKey remaining). siblings_sorted (snd en)"
proof (induction remaining arbitrary: dataFiles taxKey)
  case Nil
  show ?case by (auto simp: end_node_def Let_def)
next
  case (Cons k remaining)
  show ?case
  proof
    fix en assume "en \<in> set (collectMediaLibraryTaxonomy dataFiles taxKey (k # remaining))"
    then obtain g where
      en: "en = (fst g, Branch taxKey (fst (snd g)) (fst (snd g) = JStr NONE)
          (sortTaxonomyItems (collectMediaLibraryTaxonomy (snd (snd g)) k remaining)))" by auto
    have "\<forall>c \<in> set (sortTaxonomyItems (collectMediaLibraryTaxonomy (snd (snd g)) k remaining)).
        siblings_sorted (snd c)"
      using Cons.IH [of "snd (snd g)" k] set_sortTaxonomyItems by blast
    then show "siblings_sorted (snd en)"
      by (simp add: en list_all_iff sortTaxonomyItems_order)
  qed
qed

section \<open>The order of the root level\<close>

lemma own_order_rec_imp:
  "own_order_rec ks \<Longrightarrow>
   ks = filter is_array_index ks @ filter (\<lambda>k. \<not> is_array_index k) ks \<and>
   sorted (map dec_val (filter is_array_index ks))"
proof (induction ks)
  case Nil
  then show ?case by simp
next
  case (Cons k ks)
  then have ih: "ks = filter is_array_index ks @ filter (\<lambda>k. \<not> is_array_index k) ks"
    "sorted (map dec_val (filter is_array_index ks))" by simp_all
  show ?case
  proof (cases "is_array_index k")
    case True
    with Cons.prems have "\<forall>a \<in> set ks. is_array_index a \<longrightarrow> dec_val k \<le> dec_val a"
      by (simp add: list_all_iff)
    with ih True show ?thesis by auto
  next
    case False
    with Cons.prems have all: "\<forall>a \<in> set ks. \<not> is_array_index a"
      by (simp add: list_all_iff)
    then have f: "filter is_array_index ks = []" and n: "filter (\<lambda>k. \<not> is_array_index k) ks = ks"
      by (simp_all add: filter_empty_conv filter_id_conv)
    with False show ?thesis by simp
  qed
qed

lemma own_insert_index:
  "own_order_rec (obj_keys ob) \<Longrightarrow> is_array_index k \<Longrightarrow>
   own_order_rec (obj_keys (obj_insert_index ob k v))"
proof (induction ob k v rule: obj_insert_index.induct)
  case (1 k v)
  then show ?case by (simp add: obj_keys_def)
next
  case (2 k' v' rest k v)
  show ?case
  proof (cases "is_array_index k' \<and> dec_val k' < dec_val k")
    case True
    from "2.prems" have "own_order_rec (obj_keys rest)" by (simp add: obj_keys_def)
    with True "2.IH" "2.prems"(2) have ih: "own_order_rec (obj_keys (obj_insert_index rest k v))"
      by simp
    have old: "\<forall>a \<in> set (obj_keys rest). is_array_index a \<longrightarrow> dec_val k' \<le> dec_val a"
      using True "2.prems"(1) by (simp add: obj_keys_def list_all_iff)
    have "\<forall>a \<in> set (obj_keys (obj_insert_index rest k v)). is_array_index a \<longrightarrow> dec_val k' \<le> dec_val a"
      unfolding obj_keys_insert_index using True old by auto
    with True ih show ?thesis by (simp add: obj_keys_def list_all_iff)
  next
    case False
    have "\<forall>a \<in> set (k' # obj_keys rest). is_array_index a \<longrightarrow> dec_val k \<le> dec_val a"
    proof (cases "is_array_index k'")
      case True
      with False have "dec_val k \<le> dec_val k'" by simp
      moreover from True "2.prems"(1)
      have "\<forall>a \<in> set (obj_keys rest). is_array_index a \<longrightarrow> dec_val k' \<le> dec_val a"
        by (simp add: obj_keys_def list_all_iff)
      ultimately show ?thesis by auto
    next
      case nidx: False
      with "2.prems"(1) have "\<forall>a \<in> set (obj_keys rest). \<not> is_array_index a"
        by (simp add: obj_keys_def list_all_iff)
      with nidx show ?thesis by simp
    qed
    with False "2.prems" show ?thesis
      by (auto simp: obj_keys_def list_all_iff split: if_splits)
  qed
qed

lemma own_append_plain:
  "own_order_rec ks \<Longrightarrow> \<not> is_array_index k \<Longrightarrow> own_order_rec (ks @ [k])"
  by (induction ks) (auto simp: list_all_iff)

lemma own_obj_set:
  assumes "own_order_rec (obj_keys ob)"
  shows "own_order_rec (obj_keys (obj_set ob k v))"
proof (cases "k \<in> set (obj_keys ob)")
  case True
  with assms show ?thesis by (simp add: obj_set_def obj_keys_replace)
next
  case False
  show ?thesis
  proof (cases "is_array_index k")
    case True
    with False assms show ?thesis by (simp add: obj_set_def own_insert_index)
  next
    case nidx: False
    have "obj_keys (ob @ [(k, v)]) = obj_keys ob @ [k]" by (simp add: obj_keys_def)
    with False nidx assms show ?thesis by (simp add: obj_set_def own_append_plain)
  qed
qed

lemma plain_insert_index:
  "is_array_index k \<Longrightarrow>
   filter (\<lambda>k. \<not> is_array_index k) (obj_keys (obj_insert_index ob k v)) =
   filter (\<lambda>k. \<not> is_array_index k) (obj_keys ob)"
  by (induction ob k v rule: obj_insert_index.induct) (simp_all add: obj_keys_def)

lemma plain_obj_set:
  "filter (\<lambda>k. \<not> is_array_index k) (obj_keys (obj_set ob k v)) =
   (if k \<in> set (obj_keys ob) \<or> is_array_index k
    then filter (\<lambda>k. \<not> is_array_index k) (obj_keys ob)
    else filter (\<lambda>k. \<not> is_array_index k) (obj_keys ob) @ [k])"
  by (simp add: obj_set_def obj_keys_replace plain_insert_index) (simp add: obj_keys_def)

lemma collect_step_keys:
  "\<exists>v. obj_keys (collect_step taxKey acc en) =
     obj_keys (obj_set acc (js_toString (getTaxonomyValue (all_tags (snd en)) taxKey)) v)"
  by (auto simp: collect_step_def Let_def split: option.splits)

lemma collect_fold_root:
  "own_order_rec (obj_keys acc) \<Longrightarrow>
   filter (\<lambda>k. \<not> is_array_index k) (obj_keys acc) = filter (\<lambda>k. \<not> is_array_index k) s \<Longrightarrow>
   set (obj_keys acc) = set s \<Longrightarrow>
   own_order_rec (obj_keys (foldl (collect_step taxKey) acc es)) \<and>
   filter (\<lambda>k. \<not> is_array_index k) (obj_keys (foldl (collect_step taxKey) acc es)) =
     filter (\<lambda>k. \<not> is_array_index k)
       (foldl (\<lambda>acc g. if g \<in> set acc then acc else acc @ [g]) s (group_values es taxKey)) \<and>
   set (obj_keys (foldl (collect_step taxKey) acc es)) = set s \<union> set (group_values es taxKey)"
proof (induction es arbitrary: acc s)
  case Nil
  then show ?case by (simp add: group_values_def)
next
  case (Cons en es)
  let ?g = "js_toString (getTaxonomyValue (all_tags (snd en)) taxKey)"
  let ?s = "if ?g \<in> set s then s else s @ [?g]"
  from collect_step_keys [of taxKey acc en] obtain v where
    k: "obj_keys (collect_step taxKey acc en) = obj_keys (obj_set acc ?g v)"
    by blast
  have 1: "own_order_rec (obj_keys (collect_step taxKey acc en))"
    unfolding k using Cons.prems(1) by (rule own_obj_set)
  have 2: "filter (\<lambda>k. \<not> is_array_index k) (obj_keys (collect_step taxKey acc en)) =
      filter (\<lambda>k. \<not> is_array_index k) ?s"
    unfolding k plain_obj_set using Cons.prems(2,3) by simp
  have 3: "set (obj_keys (collect_step taxKey acc en)) = set ?s"
    unfolding k set_obj_keys_set using Cons.prems(3) by auto
  from Cons.IH [OF 1 2 3] show ?case by (auto simp: group_values_def)
qed

lemma collect_groups_root:
  "root_order (group_values dataFiles taxKey) (obj_keys (collect_groups dataFiles taxKey))"
proof -
  let ?ks = "obj_keys (collect_groups dataFiles taxKey)"
  have "own_order_rec (obj_keys ([] :: (jsval \<times> file_record obj) obj))" by (simp add: obj_keys_def)
  moreover have "filter (\<lambda>k. \<not> is_array_index k) (obj_keys ([] :: (jsval \<times> file_record obj) obj)) =
      filter (\<lambda>k. \<not> is_array_index k) []"
    by (simp add: obj_keys_def)
  moreover have "set (obj_keys ([] :: (jsval \<times> file_record obj) obj)) = set []"
    by (simp add: obj_keys_def)
  ultimately have r: "own_order_rec ?ks"
    "filter (\<lambda>k. \<not> is_array_index k) ?ks =
       filter (\<lambda>k. \<not> is_array_index k) (first_seen (group_values dataFiles taxKey))"
    "set ?ks = set (group_values dataFiles taxKey)"
    using collect_fold_root [of "[]" "[]" taxKey dataFiles]
    by (simp_all add: collect_groups_def first_seen_def)
  from own_order_rec_imp [OF r(1)] r(2,3) collect_groups_distinct [of dataFiles taxKey]
  show ?thesis unfolding root_order_def by blast
qed

lemma collectMediaLibraryTaxonomy_keys:
  "obj_keys (collectMediaLibraryTaxonomy dataFiles taxKey remaining) =
   obj_keys (collect_groups dataFiles taxKey)"
  by (cases remaining) (simp_all add: obj_keys_def comp_def)

text \<open>
  C3 (as stated, refuted): two records whose artists are met as \<open>B\<close>, then \<open>A\<close>. The
  root level the builder returns, which is the tree of the primary category, has the
  groups in that order, not in ascending order.
\<close>

theorem root_level_not_sorted:
  "obj_keys (collectMediaLibraryTaxonomy ex_unsorted ''albumartist__or__artists'' [''album'']) =
     [''B'', ''A''] \<and>
   \<not> sibling_order (obj_keys
       (collectMediaLibraryTaxonomy ex_unsorted ''albumartist__or__artists'' [''album''])) \<and>
   map_option (\<lambda>en. obj_keys (ce_items en)) (primary_entry ex_unsorted ex_primary) =
     Some [''B'', ''A'']"
  by code_simp

text \<open>
  C3 (amended): in the tree the builder returns, the children of every branch, at every
  depth, are in sibling order: the group values that are array indices first, in
  ascending numeric order, then the other group values in ascending order of their
  literal form (the ungrouped sentinel among them). The root level is not sorted: its
  groups are in the key order of the object that holds them, the group values that are
  array indices first, in ascending numeric order, then the other group values in the
  order in which they are first met among the records.
\<close>

theorem collectMediaLibraryTaxonomy_sibling_order:
  "list_all (\<lambda>en. siblings_sorted (snd en))
     (collectMediaLibraryTaxonomy dataFiles taxKey remainingTaxKeys) \<and>
   sibling_order (obj_keys (sortTaxonomyItems its)) \<and>
   root_order (group_values dataFiles taxKey)
     (obj_keys (collectMediaLibraryTaxonomy dataFiles taxKey remainingTaxKeys))"
  using collect_siblings_sorted [of dataFiles taxKey remainingTaxKeys] sortTaxonomyItems_order [of its]
    collect_groups_root [of dataFiles taxKey]
  by (simp add: list_all_iff collectMediaLibraryTaxonomy_keys)

lemma ex_numeric_tree_keys:
  "map (\<lambda>en. case snd en of Branch k d n its \<Rightarrow> obj_keys its | Leaf k d n its t \<Rightarrow> [])
     (collectMediaLibraryTaxonomy ex_numeric ''albumartist__or__artists'' [''album'']) =
   [[''21'', ''1989'', ''Abbey'', ''Low'']]"
  by code_simp

lemma ex_mixed_root:
  "obj_keys (collectMediaLibraryTaxonomy ex_mixed ''albumartist__or__artists'' [''album'']) =
     [''3'', ''7'', ''B'', ''A'']"
  by code_simp

lemma ex_mixed_values:
  "group_values ex_mixed ''albumartist__or__artists'' = [''B'', ''A'', ''7'', ''3'', ''B'']"
  by code_simp

lemma ex_mixed_other_orders:
  "\<not> root_order [''B'', ''A'', ''7'', ''3'', ''B''] [''B'', ''A'', ''7'', ''3''] \<and>
   \<not> root_order [''B'', ''A'', ''7'', ''3'', ''B''] [''3'', ''7'', ''A'', ''B'']"
  by code_simp

theorem collectMediaLibraryTaxonomy_sibling_order_witness:
  "list_all (\<lambda>en. siblings_sorted (snd en))
     (collectMediaLibraryTaxonomy ex_numeric ''albumartist__or__artists'' [''album'']) \<and>
   map (\<lambda>en. case snd en of Branch k d n its \<Rightarrow> obj_keys its | Leaf k d n its t \<Rightarrow> [])
     (collectMediaLibraryTaxonomy ex_numeric ''albumartist__or__artists'' [''album'']) =
   [[''21'', ''1989'', ''Abbey'', ''Low'']] \<and>
   sibling_order [''21'', ''1989'', ''Abbey'', ''Low''] \<and>
   obj_keys (collectMediaLibraryTaxonomy ex_mixed ''albumartist__or__artists'' [''album'']) =
     [''3'', ''7'', ''B'', ''A''] \<and>
   root_order [''B'', ''A'', ''7'', ''3'', ''B''] [''3'', ''7'', ''B'', ''A''] \<and>
   \<not> root_order [''B'', ''A'', ''7'', ''3'', ''B''] [''B'', ''A'', ''7'', ''3''] \<and>
   \<not> root_order [''B'', ''A'', ''7'', ''3'', ''B''] [''3'', ''7'', ''A'', ''B'']"
proof -
  note t = collectMediaLibraryTaxonomy_sibling_order
    [of ex_numeric "''albumartist__or__artists''" "[''album'']" "[]"]
  note u = collectMediaLibraryTaxonomy_sibling_order
    [of ex_mixed "''albumartist__or__artists''" "[''album'']" "[]"]
  have s: "sibling_order [''21'', ''1989'', ''Abbey'', ''Low'']" by code_simp
  from u have "root_order (group_values ex_mixed ''albumartist__or__artists'')
      (obj_keys (collectMediaLibraryTaxonomy ex_mixed ''albumartist__or__artists'' [''album'']))"
    by blast
  then have "root_order [''B'', ''A'', ''7'', ''3'', ''B''] [''3'', ''7'', ''B'', ''A'']"
    unfolding ex_mixed_root ex_mixed_values .
  with t s ex_numeric_tree_keys ex_mixed_root ex_mixed_other_orders show ?thesis by blast
qed

section \<open>The store: what the copy and the filter touch\<close>

lemma closed_from_iff:
  "closed_from n0 h \<longleftrightarrow> (\<forall>b. n0 \<le> b \<and> b < length h \<longrightarrow> (\<forall>x \<in> set (refs (h ! b)). n0 \<le> x))"
proof
  assume c: "closed_from n0 h"
  show "\<forall>b. n0 \<le> b \<and> b < length h \<longrightarrow> (\<forall>x \<in> set (refs (h ! b)). n0 \<le> x)"
  proof (intro allI impI)
    fix b assume b: "n0 \<le> b \<and> b < length h"
    then have "h ! b = drop n0 h ! (b - n0)" and "b - n0 < length (drop n0 h)" by auto
    then have "h ! b \<in> set (drop n0 h)" by (metis nth_mem)
    with c show "\<forall>x \<in> set (refs (h ! b)). n0 \<le> x"
      by (simp add: closed_from_def list_all_iff)
  qed
next
  assume a: "\<forall>b. n0 \<le> b \<and> b < length h \<longrightarrow> (\<forall>x \<in> set (refs (h ! b)). n0 \<le> x)"
  have "\<forall>x \<in> set (refs ob). n0 \<le> x" if "ob \<in> set (drop n0 h)" for ob
  proof -
    from that obtain i where "i < length (drop n0 h)" and "drop n0 h ! i = ob"
      by (auto simp: in_set_conv_nth)
    then have "n0 \<le> n0 + i \<and> n0 + i < length h" and "h ! (n0 + i) = ob" by auto
    with a show ?thesis by blast
  qed
  then show "closed_from n0 h" by (simp add: closed_from_def list_all_iff)
qed

lemma closed_from_append:
  "closed_from n0 h \<Longrightarrow> \<forall>x \<in> set (refs ob). n0 \<le> x \<Longrightarrow> closed_from n0 (h @ [ob])"
  by (auto simp: closed_from_iff nth_append)

lemma closed_from_update:
  assumes "closed_from n0 h" and "\<forall>x \<in> set (refs ob). n0 \<le> x"
  shows "closed_from n0 (h[b := ob])"
  unfolding closed_from_iff
proof (intro allI impI)
  fix c assume c: "n0 \<le> c \<and> c < length (h[b := ob])"
  show "\<forall>x \<in> set (refs (h[b := ob] ! c)). n0 \<le> x"
  proof (cases "c = b")
    case True
    with c assms(2) show ?thesis by simp
  next
    case False
    with c assms(1) show ?thesis by (simp add: closed_from_iff)
  qed
qed

lemma refs_HMap: "x \<in> set (refs (HMap es)) \<longleftrightarrow> HRef x \<in> snd ` set es"
  by (induction es) (auto split: hval.splits)

lemma refs_HMap_mono: "set es' \<subseteq> set es \<Longrightarrow> set (refs (HMap es')) \<subseteq> set (refs (HMap es))"
  by (auto simp: refs_HMap)

lemma refs_obj_set_null: "set (refs (HMap (obj_set es key HNull))) \<subseteq> set (refs (HMap es))"
proof
  fix x assume "x \<in> set (refs (HMap (obj_set es key HNull)))"
  then obtain en where en: "en \<in> set (obj_set es key HNull)" and x: "snd en = HRef x"
    by (auto simp: refs_HMap)
  from en have "en = (key, HNull) \<or> en \<in> set es" using set_obj_set [of es key HNull] by auto
  with x have "en \<in> set es" by auto
  with x show "x \<in> set (refs (HMap es))" by (force simp: refs_HMap)
qed

lemma extends_refl: "extends n0 h h"
  by (simp add: extends_def)

lemma extends_trans: "extends n0 h h1 \<Longrightarrow> extends n0 h1 h2 \<Longrightarrow> extends n0 h h2"
  by (fastforce simp: extends_def)

lemma extends_alloc: "\<forall>x \<in> set (refs ob). n0 \<le> x \<Longrightarrow> extends n0 h (fst (alloc h ob))"
  by (simp add: extends_def alloc_def)

lemma extends_length: "extends n0 h h1 \<Longrightarrow> length h \<le> length h1"
  by (auto simp: extends_def)

lemma clone_entries_extends:
  assumes c: "\<And>h a h1 a1. n0 \<le> length h \<Longrightarrow> c h a = Some (h1, a1) \<Longrightarrow> extends n0 h h1 \<and> n0 \<le> a1"
  shows "n0 \<le> length h \<Longrightarrow> clone_entries c h es = Some (h1, es1) \<Longrightarrow>
         extends n0 h h1 \<and> (\<forall>x \<in> set (refs (HMap es1)). n0 \<le> x)"
proof (induction es arbitrary: h h1 es1)
  case Nil
  then show ?case by (simp add: extends_refl)
next
  case (Cons en es)
  obtain k v where en: "en = (k, v)" by (cases en)
  show ?case
  proof (cases v)
    case HNull
    with Cons.prems en obtain es2 where r: "clone_entries c h es = Some (h1, es2)"
      and es1: "es1 = (k, HNull) # es2"
      by (auto split: option.splits)
    from Cons.IH [OF Cons.prems(1) r] es1 show ?thesis by simp
  next
    case (HRef b)
    with Cons.prems en obtain h2 b1 es2 where cb: "c h b = Some (h2, b1)"
      and r: "clone_entries c h2 es = Some (h1, es2)" and es1: "es1 = (k, HRef b1) # es2"
      by (auto split: option.splits)
    from c [OF Cons.prems(1) cb] have e1: "extends n0 h h2" and b1: "n0 \<le> b1" by simp_all
    from e1 Cons.prems(1) have "n0 \<le> length h2" using extends_length by fastforce
    from Cons.IH [OF this r] have e2: "extends n0 h2 h1"
      and rs: "\<forall>x \<in> set (refs (HMap es2)). n0 \<le> x" by simp_all
    from e1 e2 have "extends n0 h h1" by (rule extends_trans)
    with rs b1 es1 show ?thesis by simp
  qed
qed

lemma cloneDeep_store_extends:
  "n0 \<le> length h \<Longrightarrow> cloneDeep_store fuel h a = Some (h1, a1) \<Longrightarrow>
   extends n0 h h1 \<and> n0 \<le> a1"
proof (induction fuel arbitrary: h a h1 a1)
  case 0
  then show ?case by simp
next
  case (Suc fuel)
  from Suc.prems(2) have a: "a < length h" by (simp split: if_splits)
  show ?case
  proof (cases "h ! a")
    case (HFile r)
    with Suc.prems a have "h1 = h @ [HFile r]" "a1 = length h" by (simp_all add: alloc_def)
    with Suc.prems(1) show ?thesis by (simp add: extends_def)
  next
    case (HNode k d n e its t)
    with Suc.prems a obtain h2 its1 where r: "cloneDeep_store fuel h its = Some (h2, its1)"
      and res: "h1 = h2 @ [HNode k d n e its1 t]" "a1 = length h2"
      by (auto simp: alloc_def split: option.splits)
    from Suc.IH [OF Suc.prems(1) r] have e: "extends n0 h h2" and i: "n0 \<le> its1" by simp_all
    have "extends n0 h2 h1" using i res by (simp add: extends_def)
    with e have "extends n0 h h1" by (rule extends_trans)
    moreover have "n0 \<le> a1" using res e Suc.prems(1) extends_length by fastforce
    ultimately show ?thesis by simp
  next
    case (HMap es)
    with Suc.prems a obtain h2 es1 where r: "clone_entries (cloneDeep_store fuel) h es = Some (h2, es1)"
      and res: "h1 = h2 @ [HMap es1]" "a1 = length h2"
      by (auto simp: alloc_def split: option.splits)
    have "extends n0 h h2 \<and> (\<forall>x \<in> set (refs (HMap es1)). n0 \<le> x)"
      using Suc.prems(1) r by (rule clone_entries_extends [rotated]) (rule Suc.IH)
    then have e: "extends n0 h h2" and rs: "\<forall>x \<in> set (refs (HMap es1)). n0 \<le> x" by simp_all
    have "extends n0 h2 h1" using rs res unfolding extends_def by auto
    with e have "extends n0 h h1" by (rule extends_trans)
    moreover have "n0 \<le> a1" using res e Suc.prems(1) extends_length by fastforce
    ultimately show ?thesis by simp
  qed
qed

lemma extends_closed:
  assumes "extends (length h) h h1"
  shows "take (length h) h1 = h" and "closed_from (length h) h1"
proof -
  from assms obtain new where h1: "h1 = h @ new"
    and rs: "\<forall>ob \<in> set new. \<forall>x \<in> set (refs ob). length h \<le> x"
    by (auto simp: extends_def)
  show "take (length h) h1 = h" by (simp add: h1)
  show "closed_from (length h) h1"
    using rs by (simp add: h1 closed_from_def list_all_iff)
qed


text \<open>The filter writes only to objects from \<open>n0\<close> on when it starts from one of them.\<close>

lemma keeps_trans: "keeps n0 h h1 \<Longrightarrow> keeps n0 h1 h2 \<Longrightarrow> keeps n0 h h2"
  by (simp add: keeps_def)

lemma keeps_refl: "closed_from n0 h \<Longrightarrow> keeps n0 h h"
  by (simp add: keeps_def)

lemma set_items_keeps:
  assumes "closed_from n0 h" and "n0 \<le> b" and "n0 \<le> v"
  shows "keeps n0 h (set_items h b v)"
proof (cases "h ! b")
  case (HNode k d n e its t)
  have "closed_from n0 (h[b := HNode k d n e v t])"
    using assms(1) by (rule closed_from_update) (simp add: assms(3))
  with assms(2) HNode show ?thesis by (simp add: set_items_def keeps_def)
next
  case (HMap es)
  with assms(1) show ?thesis by (simp add: set_items_def keeps_def)
next
  case (HFile r)
  with assms(1) show ?thesis by (simp add: set_items_def keeps_def)
qed

lemma set_null_keeps:
  assumes "closed_from n0 h" and "n0 \<le> a" and "a < length h"
  shows "keeps n0 h (set_null h a key)"
proof (cases "h ! a")
  case (HMap es)
  have "\<forall>x \<in> set (refs (HMap es)). n0 \<le> x"
    using assms HMap by (auto simp: closed_from_iff)
  then have "\<forall>x \<in> set (refs (HMap (obj_set es key HNull))). n0 \<le> x"
    using refs_obj_set_null [of es key] by blast
  with assms(1) have "closed_from n0 (h[a := HMap (obj_set es key HNull)])"
    by (rule closed_from_update)
  with assms(2) HMap show ?thesis by (simp add: set_null_def keeps_def)
next
  case (HNode k d n e its t)
  with assms(1) show ?thesis by (simp add: set_null_def keeps_def)
next
  case (HFile r)
  with assms(1) show ?thesis by (simp add: set_null_def keeps_def)
qed

lemma alloc_keeps:
  assumes "closed_from n0 h" and "n0 \<le> length h" and "\<forall>x \<in> set (refs ob). n0 \<le> x"
  shows "keeps n0 h (h @ [ob])"
  using assms by (simp add: keeps_def closed_from_append)

lemma filter_files_subset: "filter_files f h es = Some es' \<Longrightarrow> set es' \<subseteq> set es"
proof (induction es arbitrary: es')
  case Nil
  then show ?case by simp
next
  case (Cons en es)
  obtain k v where en: "en = (k, v)" by (cases en)
  from Cons.prems en obtain r es2 where "filter_files f h es = Some es2"
    and "es' = (if f r then (k, v) # es2 else es2)"
    by (auto split: option.splits)
  with Cons.IH [of es2] en show ?case by auto
qed

lemma map_entries_Some:
  "map_entries h a = Some es \<Longrightarrow> a < length h \<and> h ! a = HMap es"
  by (auto simp: map_entries_def split: if_splits hobj.splits)

lemma keeps_set_null_if:
  assumes "keeps n0 h h2" and "n0 \<le> a" and "a < length h"
  shows "keeps n0 h (if c then set_null h2 a key else h2)"
proof (cases c)
  case True
  from assms have "closed_from n0 h2" and "a < length h2" by (simp_all add: keeps_def)
  then have "keeps n0 h2 (set_null h2 a key)" using assms(2) by (intro set_null_keeps) simp_all
  with assms(1) True show ?thesis using keeps_trans by simp
next
  case False
  with assms(1) show ?thesis by simp
qed

lemma filter_item_keeps:
  assumes rc: "\<And>h its hr. closed_from n0 h \<Longrightarrow> n0 \<le> its \<Longrightarrow> recurse h its = Some hr \<Longrightarrow>
      keeps n0 h (fst hr) \<and> n0 \<le> snd hr"
    and cl: "closed_from n0 h" and a: "n0 \<le> a" "a < length h"
    and it: "\<forall>b. item = HRef b \<longrightarrow> n0 \<le> b"
    and res: "filter_item recurse f a key item h = Some h'"
  shows "keeps n0 h h'"
proof -
  from res obtain b where item: "item = HRef b" and b: "b < length h"
    by (cases item) (auto simp: filter_item_def split: if_splits)
  from it item have nb: "n0 \<le> b" by simp
  from res item b obtain k d n e its t where node: "h ! b = HNode k d n e its t"
    by (cases "h ! b") (auto simp: filter_item_def)
  have nits: "n0 \<le> its" using cl nb b node by (auto simp: closed_from_iff)
  have n0len: "n0 \<le> length h" using nb b by simp
  show ?thesis
  proof (cases e)
    case True
    from res item b node True obtain fes fileEntries where
      fes: "map_entries h its = Some fes" and fe: "filter_files f h fes = Some fileEntries"
      and h': "h' = (if length fileEntries = 0
          then set_null (set_items (h @ [HMap (fromEntries fileEntries)]) b (length h)) a key
          else set_items (h @ [HMap (fromEntries fileEntries)]) b (length h))"
      by (auto simp: filter_item_def alloc_def Let_def split: option.splits)
    from map_entries_Some [OF fes] have "its < length h" "h ! its = HMap fes" by simp_all
    with cl nits have "\<forall>x \<in> set (refs (HMap fes)). n0 \<le> x" by (auto simp: closed_from_iff)
    moreover have "set (fromEntries fileEntries) \<subseteq> set fes"
      using set_fromEntries [of fileEntries] filter_files_subset [OF fe] by blast
    ultimately have "\<forall>x \<in> set (refs (HMap (fromEntries fileEntries))). n0 \<le> x"
      using refs_HMap_mono by blast
    with cl n0len have k1: "keeps n0 h (h @ [HMap (fromEntries fileEntries)])"
      by (intro alloc_keeps)
    then have "closed_from n0 (h @ [HMap (fromEntries fileEntries)])" by (simp add: keeps_def)
    then have "keeps n0 (h @ [HMap (fromEntries fileEntries)])
        (set_items (h @ [HMap (fromEntries fileEntries)]) b (length h))"
      using nb n0len by (intro set_items_keeps)
    with k1 have "keeps n0 h (set_items (h @ [HMap (fromEntries fileEntries)]) b (length h))"
      by (rule keeps_trans)
    then show ?thesis unfolding h' using a by (rule keeps_set_null_if)
  next
    case False
    from res item b node False obtain hr c where
      r: "recurse h its = Some hr"
      and h': "h' = (if c
          then set_null (set_items (fst hr) b (snd hr)) a key
          else set_items (fst hr) b (snd hr))"
      by (auto simp: filter_item_def Let_def split: option.splits)
    from rc [OF cl nits r] have k1: "keeps n0 h (fst hr)" and nr: "n0 \<le> snd hr" by simp_all
    then have "closed_from n0 (fst hr)" by (simp add: keeps_def)
    then have "keeps n0 (fst hr) (set_items (fst hr) b (snd hr))"
      using nb nr by (intro set_items_keeps)
    with k1 have "keeps n0 h (set_items (fst hr) b (snd hr))" by (rule keeps_trans)
    then show ?thesis unfolding h' using a by (rule keeps_set_null_if)
  qed
qed

lemma filter_loop_keeps:
  assumes rc: "\<And>h its hr. closed_from n0 h \<Longrightarrow> n0 \<le> its \<Longrightarrow> recurse h its = Some hr \<Longrightarrow>
      keeps n0 h (fst hr) \<and> n0 \<le> snd hr"
  shows "closed_from n0 h \<Longrightarrow> n0 \<le> a \<Longrightarrow> a < length h \<Longrightarrow>
     \<forall>x \<in> set (refs (HMap es)). n0 \<le> x \<Longrightarrow>
     filter_loop recurse f a es h = Some h' \<Longrightarrow> keeps n0 h h'"
proof (induction es arbitrary: h)
  case Nil
  then show ?case by (simp add: keeps_refl)
next
  case (Cons en es)
  obtain key item where en: "en = (key, item)" by (cases en)
  from Cons.prems(5) en obtain h1 where
    i: "filter_item recurse f a key item h = Some h1" and l: "filter_loop recurse f a es h1 = Some h'"
    by (auto split: option.splits)
  have it: "\<forall>b. item = HRef b \<longrightarrow> n0 \<le> b"
    using Cons.prems(4) en by (auto simp: refs_HMap)
  have k1: "keeps n0 h h1"
    using rc Cons.prems(1,2,3) it i by (rule filter_item_keeps)
  then have c1: "closed_from n0 h1" and a1: "a < length h1"
    using Cons.prems(3) by (simp_all add: keeps_def)
  have r1: "\<forall>x \<in> set (refs (HMap es)). n0 \<le> x"
    using Cons.prems(4) by (auto simp: refs_HMap)
  from Cons.IH [OF c1 Cons.prems(2) a1 r1 l] have "keeps n0 h1 h'" .
  with k1 show ?case by (rule keeps_trans)
qed

lemma filter_store_keeps:
  "closed_from n0 h \<Longrightarrow> n0 \<le> a \<Longrightarrow> filter_store fuel f h a = Some hr \<Longrightarrow>
   keeps n0 h (fst hr) \<and> n0 \<le> snd hr"
proof (induction fuel arbitrary: h a hr)
  case 0
  then show ?case by simp
next
  case (Suc fuel)
  from Suc.prems(3) obtain es h1 where es: "map_entries h a = Some es"
    and l: "filter_loop (filter_store fuel f) f a es h = Some h1"
    and c: "compact_store h1 a = Some hr"
    by (auto split: option.splits)
  from map_entries_Some [OF es] have a: "a < length h" and ha: "h ! a = HMap es" by simp_all
  have rs: "\<forall>x \<in> set (refs (HMap es)). n0 \<le> x"
    using Suc.prems(1,2) a ha by (auto simp: closed_from_iff)
  have k1: "keeps n0 h h1"
    using Suc.prems(1,2) a rs l by (rule filter_loop_keeps [rotated]) (rule Suc.IH)
  then have c1: "closed_from n0 h1" and a1: "a < length h1" using a by (simp_all add: keeps_def)
  from c obtain es1 where es1: "map_entries h1 a = Some es1"
    and hr: "hr = (h1 @ [HMap (fromEntries (filter (\<lambda>en. snd en \<noteq> HNull) es1))], length h1)"
    by (auto simp: compact_store_def alloc_def split: option.splits)
  from map_entries_Some [OF es1] c1 Suc.prems(2)
  have "\<forall>x \<in> set (refs (HMap es1)). n0 \<le> x" by (auto simp: closed_from_iff)
  moreover have "set (fromEntries (filter (\<lambda>en. snd en \<noteq> HNull) es1)) \<subseteq> set es1"
    using set_fromEntries [of "filter (\<lambda>en. snd en \<noteq> HNull) es1"] by auto
  ultimately have "\<forall>x \<in> set (refs (HMap (fromEntries (filter (\<lambda>en. snd en \<noteq> HNull) es1)))). n0 \<le> x"
    using refs_HMap_mono by blast
  moreover have nl: "n0 \<le> length h1" using Suc.prems(2) a1 by simp
  ultimately have "keeps n0 h1 (fst hr)" using c1 by (simp add: hr alloc_keeps)
  with k1 have "keeps n0 h (fst hr)" by (rule keeps_trans)
  with nl hr show ?case by simp
qed


text \<open>Reading a tree from the store is not disturbed by objects added behind it.\<close>

lemma map_entries_append: "map_entries h a = Some es \<Longrightarrow> map_entries (h @ new) a = Some es"
  by (auto simp: map_entries_def nth_append split: if_splits)

lemma file_at_append: "file_at h v = Some r \<Longrightarrow> file_at (h @ new) v = Some r"
  by (auto simp: file_at_def nth_append split: hval.splits if_splits)

lemma load_files_append: "load_files h es = Some fs \<Longrightarrow> load_files (h @ new) es = Some fs"
proof (induction es arbitrary: fs)
  case Nil
  then show ?case by simp
next
  case (Cons en es)
  obtain k v where en: "en = (k, v)" by (cases en)
  from Cons.prems en obtain r rest where "file_at h v = Some r" "load_files h es = Some rest"
    "fs = (k, r) # rest"
    by (auto split: option.splits)
  with Cons.IH [of rest] en show ?case by (simp add: file_at_append)
qed

lemma load_entries_mono:
  assumes "\<And>b nd. ld b = Some nd \<Longrightarrow> ld' b = Some nd"
  shows "load_entries ld es = Some cs \<Longrightarrow> load_entries ld' es = Some cs"
proof (induction es arbitrary: cs)
  case Nil
  then show ?case by simp
next
  case (Cons en es)
  obtain k v where en: "en = (k, v)" by (cases en)
  from Cons.prems en obtain b nd rest where "v = HRef b" "ld b = Some nd"
    "load_entries ld es = Some rest" "cs = (k, nd) # rest"
    by (auto split: hval.splits option.splits)
  with Cons.IH [of rest] assms [of b nd] en show ?case by simp
qed

lemma load_node_append:
  "load_node fuel h b = Some nd \<Longrightarrow> load_node fuel (h @ new) b = Some nd"
proof (induction fuel arbitrary: b nd)
  case 0
  then show ?case by simp
next
  case (Suc fuel)
  from Suc.prems have b: "b < length h" by (simp split: if_splits)
  from Suc.prems b obtain k d n e its t es where node: "h ! b = HNode k d n e its t"
    and es: "map_entries h its = Some es"
    by (cases "h ! b") (auto split: option.splits)
  show ?case
  proof (cases e)
    case True
    with Suc.prems b node es obtain fs where "load_files h es = Some fs" "nd = Leaf k d n fs t"
      by (auto split: option.splits)
    with b node es True show ?thesis
      by (simp add: nth_append map_entries_append load_files_append)
  next
    case False
    with Suc.prems b node es obtain cs where l: "load_entries (load_node fuel h) es = Some cs"
      and nd: "nd = Branch k d n cs"
      by (auto split: option.splits)
    have "load_entries (load_node fuel (h @ new)) es = Some cs"
      using l by (rule load_entries_mono [rotated]) (rule Suc.IH)
    with b node es False nd show ?thesis
      by (simp add: nth_append map_entries_append)
  qed
qed

lemma load_items_append:
  "load_items fuel h a = Some t \<Longrightarrow> load_items fuel (h @ new) a = Some t"
proof -
  assume l: "load_items fuel h a = Some t"
  then obtain es where es: "map_entries h a = Some es"
    and le: "load_entries (load_node fuel h) es = Some t"
    by (auto simp: load_items_def split: option.splits)
  have "load_entries (load_node fuel (h @ new)) es = Some t"
    using le by (rule load_entries_mono [rotated]) (rule load_node_append)
  with es show ?thesis by (simp add: load_items_def map_entries_append)
qed


section \<open>The store: the derivation returns the filtered tree\<close>

text \<open>Assigning entries one after the other keeps two objects with the same keys related.\<close>

lemma obj_keys_rel: "list_all2 (rel_prod (=) R) xs ys \<Longrightarrow> obj_keys xs = obj_keys ys"
  by (induction rule: list_all2_induct) (auto simp: obj_keys_def)

lemma obj_replace_rel:
  "list_all2 (rel_prod (=) R) xs ys \<Longrightarrow> R v w \<Longrightarrow>
   list_all2 (rel_prod (=) R) (obj_replace xs k v) (obj_replace ys k w)"
  by (induction rule: list_all2_induct) auto

lemma obj_insert_index_rel:
  "list_all2 (rel_prod (=) R) xs ys \<Longrightarrow> R v w \<Longrightarrow>
   list_all2 (rel_prod (=) R) (obj_insert_index xs k v) (obj_insert_index ys k w)"
  by (induction rule: list_all2_induct) auto

lemma obj_set_rel:
  assumes "list_all2 (rel_prod (=) R) xs ys" and "R v w"
  shows "list_all2 (rel_prod (=) R) (obj_set xs k v) (obj_set ys k w)"
proof -
  from obj_keys_rel [OF assms(1)] have "obj_keys xs = obj_keys ys" .
  with assms show ?thesis
    by (simp add: obj_set_def obj_replace_rel obj_insert_index_rel list_all2_appendI)
qed

lemma foldl_obj_set_rel:
  "list_all2 (rel_prod (=) R) es fs \<Longrightarrow> list_all2 (rel_prod (=) R) acc acc' \<Longrightarrow>
   list_all2 (rel_prod (=) R) (foldl (\<lambda>ob e. obj_set ob (fst e) (snd e)) acc es)
     (foldl (\<lambda>ob e. obj_set ob (fst e) (snd e)) acc' fs)"
proof (induction arbitrary: acc acc' rule: list_all2_induct)
  case Nil
  then show ?case by simp
next
  case (Cons x xs y ys)
  from Cons.hyps(1) have k: "fst x = fst y" and r: "R (snd x) (snd y)"
    by (cases x; cases y; simp)+
  from obj_set_rel [OF Cons.prems r, of "fst x"] k
  have "list_all2 (rel_prod (=) R) (obj_set acc (fst x) (snd x)) (obj_set acc' (fst y) (snd y))"
    by simp
  from Cons.IH [OF this] show ?case by simp
qed

lemma fromEntries_rel:
  "list_all2 (rel_prod (=) R) es fs \<Longrightarrow> list_all2 (rel_prod (=) R) (fromEntries es) (fromEntries fs)"
  unfolding fromEntries_def by (rule foldl_obj_set_rel) simp_all

lemma load_files_iff:
  "load_files h es = Some fs \<longleftrightarrow> list_all2 (rel_prod (=) (file_rel h)) es fs"
proof (induction es arbitrary: fs)
  case Nil
  then show ?case by auto
next
  case (Cons en es)
  obtain k v where en: "en = (k, v)" by (cases en)
  show ?case
  proof (cases fs)
    case Nil
    then show ?thesis by (simp add: en split: option.splits)
  next
    case (Cons fn fs')
    obtain k' r where fn: "fn = (k', r)" by (cases fn)
    from Cons.IH [of fs'] show ?thesis
      by (auto simp: en fn Cons file_rel_def split: option.splits)
  qed
qed

lemma frame_refl: "frame M h h"
  by (simp add: frame_def)

lemma frame_trans: "frame M1 h h1 \<Longrightarrow> frame M2 h1 h2 \<Longrightarrow> frame (M1 \<union> M2) h h2"
  by (auto simp: frame_def)

lemma frame_mono: "frame M h h' \<Longrightarrow> M \<subseteq> M' \<Longrightarrow> frame M' h h'"
  by (auto simp: frame_def)

lemma frame_file_rel: "frame M h h' \<Longrightarrow> file_rel h v r \<Longrightarrow> file_rel h' v r"
  by (auto simp: frame_def file_rel_def file_at_def split: hval.splits if_splits hobj.splits)

lemma frame_load_files:
  assumes "frame M h h'" and "load_files h es = Some fs"
  shows "load_files h' es = Some fs"
proof -
  from assms(2) have "list_all2 (rel_prod (=) (file_rel h)) es fs" by (simp add: load_files_iff)
  then have "list_all2 (rel_prod (=) (file_rel h')) es fs"
    by (rule list_all2_mono) (auto simp: frame_file_rel [OF assms(1)])
  then show ?thesis by (simp add: load_files_iff)
qed

lemma frame_map_entries:
  "frame M h h' \<Longrightarrow> m \<notin> M \<Longrightarrow> map_entries h m = Some es \<Longrightarrow> map_entries h' m = Some es"
  by (auto simp: frame_def map_entries_def split: if_splits hobj.splits)

lemma frame_alloc: "frame {} h (fst (alloc h ob))"
  by (simp add: frame_def alloc_def nth_append)

lemma frame_set_items: "frame {b} h (set_items h b v)"
proof (cases "h ! b")
  case (HNode k d n e its t)
  have "set_items h b v ! x = HFile r" if "h ! x = HFile r" for x r
  proof -
    from that HNode have "x \<noteq> b" by auto
    then show ?thesis using that by (simp add: set_items_def HNode)
  qed
  moreover have "length (set_items h b v) = length h" by (simp add: set_items_def HNode)
  moreover have "set_items h b v ! x = h ! x" if "x \<noteq> b" for x
    using that by (simp add: set_items_def HNode)
  ultimately show ?thesis by (simp add: frame_def)
qed (simp_all add: frame_def set_items_def)

lemma frame_set_null: "frame {a} h (set_null h a key)"
proof (cases "h ! a")
  case (HMap es)
  have "set_null h a key ! x = HFile r" if "h ! x = HFile r" for x r
  proof -
    from that HMap have "x \<noteq> a" by auto
    then show ?thesis using that by (simp add: set_null_def HMap)
  qed
  moreover have "length (set_null h a key) = length h" by (simp add: set_null_def HMap)
  moreover have "set_null h a key ! x = h ! x" if "x \<noteq> a" for x
    using that by (simp add: set_null_def HMap)
  ultimately show ?thesis by (simp add: frame_def)
qed (simp_all add: frame_def set_null_def)

lemma rep_bound:
  "rep_node h n b nd S \<Longrightarrow> b \<in> S \<and> S \<subseteq> {..<length h}"
  "rep_entries h n es cs S \<Longrightarrow> S \<subseteq> {..<length h}"
proof (induction rule: rep_node_rep_entries.inducts)
  case (rep_leaf b h k d nn m t es fs n)
  then show ?case by (auto simp: map_entries_def split: if_splits)
next
  case (rep_branch b h k d nn m t es n cs S)
  then show ?case by (auto simp: map_entries_def split: if_splits)
next
  case (rep_nil h n)
  then show ?case by simp
next
  case (rep_cons h n b nd S1 es cs S2 k)
  then show ?case by auto
qed

lemma rep_frame:
  "rep_node h n b nd S \<Longrightarrow> frame M h h' \<Longrightarrow> M \<inter> S = {} \<Longrightarrow> rep_node h' n b nd S"
  "rep_entries h n es cs S \<Longrightarrow> frame M h h' \<Longrightarrow> M \<inter> S = {} \<Longrightarrow> rep_entries h' n es cs S"
proof (induction rule: rep_node_rep_entries.inducts)
  case (rep_leaf b h k d nn m t es fs n)
  from rep_leaf.prems rep_leaf.hyps(1,2) have "b < length h'" "h' ! b = HNode k d nn True m t"
    by (auto simp: frame_def)
  moreover from rep_leaf.prems rep_leaf.hyps(3) have "map_entries h' m = Some es"
    by (intro frame_map_entries [of M h h']) auto
  moreover from frame_load_files [OF rep_leaf.prems(1) rep_leaf.hyps(4)]
  have "load_files h' es = Some fs" .
  ultimately show ?case by (rule rep_node_rep_entries.rep_leaf)
next
  case (rep_branch b h k d nn m t es n cs S)
  from rep_branch.prems rep_branch.hyps(1,2) have "b < length h'" "h' ! b = HNode k d nn False m t"
    by (auto simp: frame_def)
  moreover from rep_branch.prems rep_branch.hyps(3) have "map_entries h' m = Some es"
    by (intro frame_map_entries [of M h h']) auto
  moreover from rep_branch.IH rep_branch.prems have "rep_entries h' n es cs S" by auto
  ultimately show ?case using rep_branch.hyps(5,6) by (rule rep_node_rep_entries.rep_branch)
next
  case (rep_nil h n)
  show ?case by (rule rep_node_rep_entries.rep_nil)
next
  case (rep_cons h n b nd S1 es cs S2 k)
  from rep_cons.IH rep_cons.prems have "rep_node h' n b nd S1" "rep_entries h' n es cs S2" by auto
  then show ?case using rep_cons.hyps(3) by (rule rep_node_rep_entries.rep_cons)
qed

lemma inrep_frame:
  "inrep A h n v nd \<Longrightarrow> frame M h h' \<Longrightarrow> M \<inter> A = {} \<Longrightarrow> A \<subseteq> A' \<Longrightarrow> inrep A' h' n v nd"
proof (induction n arbitrary: v nd)
  case 0
  then show ?case by simp
next
  case (Suc n)
  from Suc.prems(1) obtain b where v: "v = HRef b" by (cases v) auto
  from Suc.prems(1) v have b: "b \<in> A" "b < length h" by auto
  from Suc.prems(1) v b obtain k d nn e m t where hb: "h ! b = HNode k d nn e m t"
    by (cases "h ! b") auto
  from Suc.prems(1) v b hb obtain es where m: "m \<in> A" and me: "map_entries h m = Some es"
    by (auto split: option.splits)
  from b Suc.prems(2,3) hb have hb': "h' ! b = HNode k d nn e m t" "b < length h'"
    by (auto simp: frame_def)
  from me m Suc.prems(2,3) have me': "map_entries h' m = Some es"
    by (intro frame_map_entries [of M h h']) auto
  show ?case
  proof (cases e)
    case True
    with Suc.prems(1) v b hb me obtain fs where "load_files h es = Some fs" "nd = Leaf k d nn fs t"
      by auto
    with frame_load_files [OF Suc.prems(2)] have "load_files h' es = Some fs" by simp
    with \<open>nd = Leaf k d nn fs t\<close> True v b m hb' me' Suc.prems(4) show ?thesis by auto
  next
    case False
    with Suc.prems(1) v b hb me obtain cs where
      cs: "list_all2 (rel_prod (=) (inrep A h n)) es cs" and nd: "nd = Branch k d nn cs"
      by auto
    from cs have "list_all2 (rel_prod (=) (inrep A' h' n)) es cs"
    proof (rule list_all2_mono)
      fix x :: "string \<times> hval" and y :: "string \<times> taxnode"
      assume "rel_prod (=) (inrep A h n) x y"
      then show "rel_prod (=) (inrep A' h' n) x y"
        using Suc.IH [OF _ Suc.prems(2,3,4)] by (cases x; cases y) auto
    qed
    with nd False v b m hb' me' Suc.prems(4) show ?thesis by auto
  qed
qed

lemma inrep_load_node:
  "inrep A h n (HRef b) nd \<Longrightarrow> load_node n h b = Some nd"
proof (induction n arbitrary: b nd)
  case 0
  then show ?case by simp
next
  case (Suc n)
  from Suc.prems have b: "b < length h" by auto
  from Suc.prems b obtain k d nn e m t where hb: "h ! b = HNode k d nn e m t"
    by (cases "h ! b") auto
  from Suc.prems b hb obtain es where me: "map_entries h m = Some es"
    by (auto split: option.splits)
  show ?case
  proof (cases e)
    case True
    with Suc.prems b hb me show ?thesis by auto
  next
    case False
    with Suc.prems b hb me obtain cs where
      cs: "list_all2 (rel_prod (=) (inrep A h n)) es cs" and nd: "nd = Branch k d nn cs"
      by auto
    from cs have "load_entries (load_node n h) es = Some cs"
    proof (induction rule: list_all2_induct)
      case Nil
      then show ?case by simp
    next
      case (Cons x xs y ys)
      obtain k v where x: "x = (k, v)" by (cases x)
      obtain k' c where y: "y = (k', c)" by (cases y)
      from Cons.hyps(1) x y have kk: "k' = k" and i: "inrep A h n v c" by auto
      from i obtain b' where v: "v = HRef b'" by (cases n; cases v) auto
      from Suc.IH [of b' c] i v have "load_node n h b' = Some c" by simp
      with Cons.IH show ?case by (simp add: x y kk v)
    qed
    with nd False b hb me show ?thesis by simp
  qed
qed

lemma filter_files_rel:
  "list_all2 (rel_prod (=) (file_rel h)) fes fs \<Longrightarrow>
   \<exists>fe. filter_files f h fes = Some fe \<and>
        list_all2 (rel_prod (=) (file_rel h)) fe (filter (\<lambda>en. f (snd en)) fs)"
proof (induction rule: list_all2_induct)
  case Nil
  then show ?case by simp
next
  case (Cons x xs y ys)
  obtain k v where x: "x = (k, v)" by (cases x)
  obtain k' r where y: "y = (k', r)" by (cases y)
  from Cons.hyps(1) x y have kk: "k' = k" and frl: "file_rel h v r" by auto
  then have fr: "file_at h v = Some r" by (simp add: file_rel_def)
  from Cons.IH obtain fe where fe: "filter_files f h xs = Some fe"
    and rel: "list_all2 (rel_prod (=) (file_rel h)) fe (filter (\<lambda>en. f (snd en)) ys)"
    by blast
  from fe fr frl rel show ?case by (simp add: x y kk)
qed

lemma obj_replace_at:
  "k \<notin> set (obj_keys ep) \<Longrightarrow> obj_replace (ep @ (k, v) # rest) k w = ep @ (k, w) # rest"
  by (induction ep) (auto simp: obj_keys_def)

lemma obj_set_at:
  "k \<notin> set (obj_keys ep) \<Longrightarrow> obj_set (ep @ (k, v) # rest) k w = ep @ (k, w) # rest"
  by (simp add: obj_set_def obj_replace_at) (simp add: obj_keys_def)

lemma set_null_at:
  "a < length h \<Longrightarrow> h ! a = HMap ea \<Longrightarrow> set_null h a key ! a = HMap (obj_set ea key HNull)"
  by (simp add: set_null_def)

lemma inrep_HNull: "\<not> inrep A h n HNull nd"
  by (cases n) simp_all

lemma inrep_mono: "inrep A h n v nd \<Longrightarrow> A \<subseteq> A' \<Longrightarrow> inrep A' h n v nd"
  using inrep_frame [of A h n v nd "{}" h A'] by (simp add: frame_refl)

lemma filter_item_leaf:
  assumes b: "b < length h" and hb: "h ! b = HNode k d nn True m t"
    and me: "map_entries h m = Some es" and lf: "load_files h es = Some fs"
    and a: "a \<noteq> b" "a < length h" and ha: "h ! a = HMap ea"
  shows "\<exists>h1. filter_item rc f a key (HRef b) h = Some h1 \<and> frame {a, b} h h1 \<and>
           h1 ! a = HMap (if filter_node f (Leaf k d nn fs t) = None then obj_set ea key HNull else ea) \<and>
           (\<forall>nd'. filter_node f (Leaf k d nn fs t) = Some nd' \<longrightarrow>
                  inrep ({b} \<union> {length h..<length h1}) h1 (Suc n) (HRef b) nd')"
proof -
  from lf have "list_all2 (rel_prod (=) (file_rel h)) es fs" by (simp add: load_files_iff)
  from filter_files_rel [OF this, of f] obtain fe where fe: "filter_files f h es = Some fe"
    and rel: "list_all2 (rel_prod (=) (file_rel h)) fe (filter (\<lambda>en. f (snd en)) fs)"
    by blast
  define h1 where "h1 = h @ [HMap (fromEntries fe)]"
  define h2 where "h2 = h1[b := HNode k d nn True (length h) t]"
  define h3 where "h3 = (if length fe = 0 then set_null h2 a key else h2)"
  have al: "alloc h (HMap (fromEntries fe)) = (h1, length h)" by (simp add: alloc_def h1_def)
  have h1b: "h1 ! b = HNode k d nn True m t" using b hb by (simp add: h1_def nth_append)
  have si: "set_items h1 b (length h) = h2" by (simp add: set_items_def h1b h2_def)
  have res: "filter_item rc f a key (HRef b) h = Some h3"
    by (simp add: filter_item_def b hb me fe al si h3_def Let_def)
  have f1: "frame {} h h1" using frame_alloc [of h "HMap (fromEntries fe)"] by (simp add: al)
  have f2: "frame {b} h1 h2" using frame_set_items [of b h1 "length h"] by (simp add: si)
  have f12: "frame {b} h h2" using frame_trans [OF f1 f2] by simp
  have f3: "frame {a} h2 h3" by (simp add: h3_def frame_set_null frame_refl)
  have f123: "frame {a, b} h h3" using frame_trans [OF f12 f3] by (simp add: insert_commute)
  have len: "length h2 = Suc (length h)" by (simp add: h2_def h1_def)
  have h2a: "h2 ! a = HMap ea" using a ha by (simp add: h2_def h1_def nth_append)
  have lfe: "length fe = length (filter (\<lambda>en. f (snd en)) fs)"
    using rel by (rule list_all2_lengthD)
  have h3a: "h3 ! a = HMap (if length fe = 0 then obj_set ea key HNull else ea)"
    using a h2a len by (simp add: h3_def set_null_at)
  have fn: "filter_node f (Leaf k d nn fs t) =
      (if length fe = 0 then None
       else Some (Leaf k d nn (fromEntries (filter (\<lambda>en. f (snd en)) fs)) t))"
    by (simp add: lfe Let_def)
  have kept: "inrep ({b} \<union> {length h..<length h3}) h3 (Suc n) (HRef b)
      (Leaf k d nn (fromEntries (filter (\<lambda>en. f (snd en)) fs)) t)" if ne: "length fe \<noteq> 0"
  proof -
    from ne have h3: "h3 = h2" by (simp add: h3_def)
    have h2b: "h2 ! b = HNode k d nn True (length h) t" using b by (simp add: h2_def h1_def)
    have hm: "map_entries h2 (length h) = Some (fromEntries fe)"
      using b by (simp add: map_entries_def h2_def h1_def)
    from rel have "list_all2 (rel_prod (=) (file_rel h2)) fe (filter (\<lambda>en. f (snd en)) fs)"
      by (rule list_all2_mono) (auto simp: frame_file_rel [OF f12])
    from fromEntries_rel [OF this]
    have "load_files h2 (fromEntries fe) = Some (fromEntries (filter (\<lambda>en. f (snd en)) fs))"
      by (simp add: load_files_iff)
    with h2b hm b len show ?thesis by (simp add: h3)
  qed
  from res f123 h3a fn kept show ?thesis by (intro exI [of _ h3]) (auto split: if_splits)
qed

lemma filter_item_branch:
  assumes b: "b < length h" and hb: "h ! b = HNode k d nn False m t"
    and rc: "rc h m = Some (h', r)" and fr: "frame (insert m S) h h'" and r: "length h \<le> r"
    and mr: "map_entries h' r = Some res"
    and rel: "list_all2 (rel_prod (=) (inrep (S \<union> {length h..<length h'}) h' n)) res
               (filterMediaLibraryTaxonomy cs f)"
    and bS: "b \<notin> S" "b \<noteq> m"
    and a: "a \<noteq> b" "a \<noteq> m" "a \<notin> S" "a < length h" and ha: "h ! a = HMap ea"
  shows "\<exists>h1. filter_item rc f a key (HRef b) h = Some h1 \<and> frame (insert a (insert b (insert m S))) h h1 \<and>
           h1 ! a = HMap (if filter_node f (Branch k d nn cs) = None then obj_set ea key HNull else ea) \<and>
           (\<forall>nd'. filter_node f (Branch k d nn cs) = Some nd' \<longrightarrow>
                  inrep (insert b (insert m S) \<union> {length h..<length h1}) h1 (Suc n) (HRef b) nd')"
proof -
  define h2 where "h2 = h'[b := HNode k d nn False r t]"
  define h3 where "h3 = (if length (obj_keys res) = 0 then set_null h2 a key else h2)"
  from fr have le: "length h \<le> length h'" by (simp add: frame_def)
  from fr b bS have hb': "h' ! b = HNode k d nn False m t" using hb by (simp add: frame_def)
  have si: "set_items h' b r = h2" by (simp add: set_items_def hb' h2_def)
  from mr have rl: "r < length h'" by (simp add: map_entries_def split: if_splits)
  from r b have rb: "r \<noteq> b" by simp
  from mr rb have mr2: "map_entries h2 r = Some res"
    by (simp add: map_entries_def h2_def split: if_splits)
  have res: "filter_item rc f a key (HRef b) h = Some h3"
    by (simp add: filter_item_def b hb rc si mr2 h3_def Let_def)
  have f2: "frame {b} h' h2" using frame_set_items [of b h' r] by (simp add: si)
  have f12: "frame (insert b (insert m S)) h h2" using frame_trans [OF fr f2] by (simp add: insert_commute)
  have f3: "frame {a} h2 h3" by (simp add: h3_def frame_set_null frame_refl)
  have f123: "frame (insert a (insert b (insert m S))) h h3"
    using frame_trans [OF f12 f3] by (simp add: insert_commute)
  from fr a ha have "h' ! a = HMap ea" by (simp add: frame_def)
  with a have h2a: "h2 ! a = HMap ea" by (simp add: h2_def)
  have len: "length h2 = length h'" by (simp add: h2_def)
  have h3a: "h3 ! a = HMap (if length (obj_keys res) = 0 then obj_set ea key HNull else ea)"
    using a h2a len le by (simp add: h3_def set_null_at)
  have lres: "length (obj_keys res) = length (obj_keys (filterMediaLibraryTaxonomy cs f))"
    using list_all2_lengthD [OF rel] by (simp add: obj_keys_def)
  have fn: "filter_node f (Branch k d nn cs) =
      (if length (obj_keys res) = 0 then None
       else Some (Branch k d nn (filterMediaLibraryTaxonomy cs f)))"
    by (simp add: lres Let_def filterMediaLibraryTaxonomy_def)
  have kept: "inrep (insert b (insert m S) \<union> {length h..<length h3}) h3 (Suc n) (HRef b)
      (Branch k d nn (filterMediaLibraryTaxonomy cs f))" if ne: "length (obj_keys res) \<noteq> 0"
  proof -
    from ne have h3: "h3 = h2" by (simp add: h3_def)
    have h2b: "h2 ! b = HNode k d nn False r t" using b le by (simp add: h2_def)
    from rel have "list_all2 (rel_prod (=) (inrep (insert b (insert m S) \<union> {length h..<length h2}) h2 n)) res
               (filterMediaLibraryTaxonomy cs f)"
    proof (rule list_all2_mono)
      fix x :: "string \<times> hval" and y :: "string \<times> taxnode"
      assume xy: "rel_prod (=) (inrep (S \<union> {length h..<length h'}) h' n) x y"
      have "inrep (insert b (insert m S) \<union> {length h..<length h2}) h2 n v nd"
        if "inrep (S \<union> {length h..<length h'}) h' n v nd" for v nd
        using bS b by (intro inrep_frame [OF that f2]) (auto simp: len)
      with xy show "rel_prod (=) (inrep (insert b (insert m S) \<union> {length h..<length h2}) h2 n) x y"
        by (cases x; cases y) auto
    qed
    with h2b mr2 b le r rl len show ?thesis by (simp add: h3)
  qed
  from res f123 h3a fn kept show ?thesis by (intro exI [of _ h3]) (auto split: if_splits)
qed

declare inrep.simps [simp del]

lemma rep_node_0: "\<not> rep_node h 0 b nd S"
  by (auto elim: rep_node.cases)

lemma rep_entries_0: "rep_entries h 0 es cs S \<Longrightarrow> es = [] \<and> cs = []"
  by (erule rep_entries.cases) (simp_all add: rep_node_0)

lemma rep_entries_Nil: "rep_entries h n [] cs S \<Longrightarrow> cs = []"
  by (erule rep_entries.cases) simp_all

lemma rep_entries_Cons:
  "rep_entries h n (e # es) cs S \<Longrightarrow>
   \<exists>k b nd cs' S1 S2. e = (k, HRef b) \<and> cs = (k, nd) # cs' \<and> S = S1 \<union> S2 \<and>
      rep_node h n b nd S1 \<and> rep_entries h n es cs' S2 \<and> S1 \<inter> S2 = {}"
  by (erule rep_entries.cases) (simp, blast)

lemma rep_keys:
  "rep_node h n b nd S \<Longrightarrow> True"
  "rep_entries h n es cs S \<Longrightarrow> obj_keys es = obj_keys cs"
  by (induction rule: rep_node_rep_entries.inducts) (simp_all add: obj_keys_def)

lemma filter_item_rep:
  assumes rec: "\<And>h a es cs S. map_entries h a = Some es \<Longrightarrow> rep_entries h n es cs S \<Longrightarrow> a \<notin> S \<Longrightarrow>
      keys_once_items cs \<Longrightarrow>
      \<exists>h' r res. rc h a = Some (h', r) \<and> frame (insert a S) h h' \<and> length h \<le> r \<and>
        map_entries h' r = Some res \<and>
        list_all2 (rel_prod (=) (inrep (S \<union> {length h..<length h'}) h' n)) res
          (filterMediaLibraryTaxonomy cs f)"
    and rep: "rep_node h (Suc n) b nd S1" and a: "a \<notin> S1" "a < length h" and ha: "h ! a = HMap ea"
    and ko: "keys_once nd"
  shows "\<exists>h1. filter_item rc f a key (HRef b) h = Some h1 \<and> frame (insert a S1) h h1 \<and>
           h1 ! a = HMap (if filter_node f nd = None then obj_set ea key HNull else ea) \<and>
           (\<forall>nd'. filter_node f nd = Some nd' \<longrightarrow>
                  inrep (S1 \<union> {length h..<length h1}) h1 (Suc n) (HRef b) nd')"
  using rep
proof (cases rule: rep_node.cases)
  case (rep_leaf k d nn m t es fs)
  from a rep_leaf have ab: "a \<noteq> b" by auto
  from filter_item_leaf [where rc = rc and f = f and key = key and n = n,
      OF rep_leaf(3,4,5,6) ab a(2) ha]
  obtain h1 where r: "filter_item rc f a key (HRef b) h = Some h1" "frame {a, b} h h1"
    "h1 ! a = HMap (if filter_node f (Leaf k d nn fs t) = None then obj_set ea key HNull else ea)"
    "\<forall>nd'. filter_node f (Leaf k d nn fs t) = Some nd' \<longrightarrow>
                  inrep ({b} \<union> {length h..<length h1}) h1 (Suc n) (HRef b) nd'"
    by blast
  from r(2) have fr: "frame (insert a S1) h h1" by (rule frame_mono) (auto simp: rep_leaf)
  have "inrep (S1 \<union> {length h..<length h1}) h1 (Suc n) (HRef b) nd'"
    if "filter_node f nd = Some nd'" for nd'
  proof -
    from that r(4) rep_leaf have "inrep ({b} \<union> {length h..<length h1}) h1 (Suc n) (HRef b) nd'"
      by simp
    then show ?thesis by (rule inrep_mono) (auto simp: rep_leaf)
  qed
  with r(1,3) fr show ?thesis unfolding rep_leaf(1) by blast
next
  case (rep_branch k d nn m t es cs S)
  from ko rep_branch have "keys_once_items cs" by (simp add: keys_once_items_def)
  from rec [OF rep_branch(5,6,8) this] obtain h' r res where
    rc: "rc h m = Some (h', r)" and fr: "frame (insert m S) h h'" and r: "length h \<le> r"
    and mr: "map_entries h' r = Some res"
    and rel: "list_all2 (rel_prod (=) (inrep (S \<union> {length h..<length h'}) h' n)) res
               (filterMediaLibraryTaxonomy cs f)"
    by blast
  from rep_branch(4,5) have bm: "b \<noteq> m" by (auto simp: map_entries_def split: if_splits)
  from a rep_branch have an: "a \<noteq> b" "a \<noteq> m" "a \<notin> S" by auto
  from filter_item_branch [where rc = rc and key = key,
      OF rep_branch(3,4) rc fr r mr rel rep_branch(7) bm an a(2) ha]
  show ?thesis unfolding rep_branch(1,2) by simp
qed

lemma compact_rel:
  "list_all2 (rel_prod (=) (\<lambda>v nd. case filter_node f nd of None \<Rightarrow> v = HNull
                                   | Some nd' \<Rightarrow> inrep A h n v nd')) es cs \<Longrightarrow>
   list_all2 (rel_prod (=) (inrep A h n)) (filter (\<lambda>en. snd en \<noteq> HNull) es)
     (List.map_filter (\<lambda>en. case snd en of None \<Rightarrow> None | Some v \<Rightarrow> Some (fst en, v))
        (map (\<lambda>en. (fst en, filter_node f (snd en))) cs))"
proof (induction rule: list_all2_induct)
  case Nil
  then show ?case by simp
next
  case (Cons x xs y ys)
  obtain k v where x: "x = (k, v)" by (cases x)
  obtain k' nd where y: "y = (k', nd)" by (cases y)
  show ?case
  proof (cases "filter_node f nd")
    case None
    with Cons x y show ?thesis by simp
  next
    case (Some nd')
    with Cons.hyps(1) x y have kk: "k' = k" and i: "inrep A h n v nd'" by auto
    from i have "v \<noteq> HNull" using inrep_HNull by auto
    with Cons.IH Some i show ?thesis by (simp add: x y kk)
  qed
qed

lemma filter_loop_rep:
  assumes rec: "\<And>h a es cs S. map_entries h a = Some es \<Longrightarrow> rep_entries h n es cs S \<Longrightarrow> a \<notin> S \<Longrightarrow>
      keys_once_items cs \<Longrightarrow>
      \<exists>h' r res. rc h a = Some (h', r) \<and> frame (insert a S) h h' \<and> length h \<le> r \<and>
        map_entries h' r = Some res \<and>
        list_all2 (rel_prod (=) (inrep (S \<union> {length h..<length h'}) h' n)) res
          (filterMediaLibraryTaxonomy cs f)"
  shows "rep_entries h (Suc n) es cs S \<Longrightarrow> a \<notin> S \<Longrightarrow> a < length h \<Longrightarrow> h ! a = HMap (ep @ es) \<Longrightarrow>
     distinct (obj_keys (ep @ es)) \<Longrightarrow> list_all (\<lambda>en. keys_once (snd en)) cs \<Longrightarrow>
     \<exists>h' es'. filter_loop rc f a es h = Some h' \<and> frame (insert a S) h h' \<and>
       h' ! a = HMap (ep @ es') \<and>
       list_all2 (rel_prod (=) (\<lambda>v nd. case filter_node f nd of None \<Rightarrow> v = HNull
            | Some nd' \<Rightarrow> inrep (S \<union> {length h..<length h'}) h' (Suc n) v nd')) es' cs"
proof (induction es arbitrary: h ep cs S)
  case Nil
  from Nil.prems(1) have "cs = []" by (rule rep_entries_Nil)
  with Nil.prems show ?case by (simp add: frame_refl)
next
  case (Cons e es)
  from Cons.prems(1) obtain k b nd cs' S1 S2 where e: "e = (k, HRef b)" and cs: "cs = (k, nd) # cs'"
    and S: "S = S1 \<union> S2" and rn: "rep_node h (Suc n) b nd S1"
    and re: "rep_entries h (Suc n) es cs' S2" and dj: "S1 \<inter> S2 = {}"
    using rep_entries_Cons by blast
  from Cons.prems(2) S have a1: "a \<notin> S1" and a2: "a \<notin> S2" by auto
  from Cons.prems(6) cs have ko: "keys_once nd" and kos: "list_all (\<lambda>en. keys_once (snd en)) cs'"
    by auto
  have "\<exists>h1. filter_item rc f a k (HRef b) h = Some h1 \<and> frame (insert a S1) h h1 \<and>
           h1 ! a = HMap (if filter_node f nd = None then obj_set (ep @ e # es) k HNull
                          else ep @ e # es) \<and>
           (\<forall>nd'. filter_node f nd = Some nd' \<longrightarrow>
                  inrep (S1 \<union> {length h..<length h1}) h1 (Suc n) (HRef b) nd')"
    by (rule filter_item_rep [where rc = rc and f = f and key = k,
          OF rec rn a1 Cons.prems(3,4) ko])
  then obtain h1 where it: "filter_item rc f a k (HRef b) h = Some h1"
    and f1: "frame (insert a S1) h h1"
    and h1a: "h1 ! a = HMap (if filter_node f nd = None then obj_set (ep @ e # es) k HNull else ep @ e # es)"
    and kept: "\<forall>nd'. filter_node f nd = Some nd' \<longrightarrow>
                  inrep (S1 \<union> {length h..<length h1}) h1 (Suc n) (HRef b) nd'"
    by blast
  define v' where "v' = (if filter_node f nd = None then HNull else HRef b)"
  from Cons.prems(5) have kn: "k \<notin> set (obj_keys ep)" by (auto simp: e obj_keys_def)
  from h1a obj_set_at [OF kn, of "HRef b" es HNull]
  have h1a': "h1 ! a = HMap ((ep @ [(k, v')]) @ es)" by (simp add: e v'_def)
  from re f1 a2 dj have re1: "rep_entries h1 (Suc n) es cs' S2"
    by (intro rep_frame(2) [of h "Suc n" es cs' S2 "insert a S1" h1]) auto
  from f1 have le1: "length h \<le> length h1" by (simp add: frame_def)
  with Cons.prems(3) have al1: "a < length h1" by simp
  from Cons.prems(5) have dk: "distinct (obj_keys ((ep @ [(k, v')]) @ es))"
    by (simp add: e obj_keys_def)
  from Cons.IH [OF re1 a2 al1 h1a' dk kos] obtain h' es' where
    lp: "filter_loop rc f a es h1 = Some h'" and f2: "frame (insert a S2) h1 h'"
    and h'a: "h' ! a = HMap ((ep @ [(k, v')]) @ es')"
    and rel: "list_all2 (rel_prod (=) (\<lambda>v nd. case filter_node f nd of None \<Rightarrow> v = HNull
            | Some nd' \<Rightarrow> inrep (S2 \<union> {length h1..<length h'}) h' (Suc n) v nd')) es' cs'"
    by blast
  from f2 have le2: "length h1 \<le> length h'" by (simp add: frame_def)
  from rep_bound(2) [OF re] have S2b: "S2 \<subseteq> {..<length h}" .
  have res: "filter_loop rc f a (e # es) h = Some h'" by (simp add: e it lp)
  have fr: "frame (insert a S) h h'"
    using frame_trans [OF f1 f2] by (rule frame_mono) (auto simp: S)
  have head: "case filter_node f nd of None \<Rightarrow> v' = HNull
            | Some nd' \<Rightarrow> inrep (S \<union> {length h..<length h'}) h' (Suc n) v' nd'"
  proof (cases "filter_node f nd")
    case None
    then show ?thesis by (simp add: v'_def)
  next
    case (Some nd')
    with kept have i: "inrep (S1 \<union> {length h..<length h1}) h1 (Suc n) (HRef b) nd'" by simp
    have "inrep (S \<union> {length h..<length h'}) h' (Suc n) (HRef b) nd'"
      using a1 Cons.prems(3) dj S2b le2 by (intro inrep_frame [OF i f2]) (auto simp: S)
    with Some show ?thesis by (simp add: v'_def)
  qed
  from rel have tail: "list_all2 (rel_prod (=) (\<lambda>v nd. case filter_node f nd of None \<Rightarrow> v = HNull
            | Some nd' \<Rightarrow> inrep (S \<union> {length h..<length h'}) h' (Suc n) v nd')) es' cs'"
  proof (rule list_all2_mono)
    fix x :: "string \<times> hval" and y :: "string \<times> taxnode"
    assume xy: "rel_prod (=) (\<lambda>v nd. case filter_node f nd of None \<Rightarrow> v = HNull
            | Some nd' \<Rightarrow> inrep (S2 \<union> {length h1..<length h'}) h' (Suc n) v nd') x y"
    have "inrep (S \<union> {length h..<length h'}) h' (Suc n) v nd'"
      if "inrep (S2 \<union> {length h1..<length h'}) h' (Suc n) v nd'" for v nd'
      using that by (rule inrep_mono) (use le1 in \<open>auto simp: S\<close>)
    with xy show "rel_prod (=) (\<lambda>v nd. case filter_node f nd of None \<Rightarrow> v = HNull
            | Some nd' \<Rightarrow> inrep (S \<union> {length h..<length h'}) h' (Suc n) v nd') x y"
      by (cases x; cases y) (auto split: option.splits)
  qed
  from head tail have "list_all2 (rel_prod (=) (\<lambda>v nd. case filter_node f nd of None \<Rightarrow> v = HNull
            | Some nd' \<Rightarrow> inrep (S \<union> {length h..<length h'}) h' (Suc n) v nd')) ((k, v') # es') cs"
    by (simp add: cs)
  with res fr h'a show ?case by (intro exI [of _ h'] exI [of _ "(k, v') # es'"]) simp
qed

lemma filter_store_rep:
  "map_entries h a = Some es \<Longrightarrow> rep_entries h n es cs S \<Longrightarrow> a \<notin> S \<Longrightarrow> keys_once_items cs \<Longrightarrow>
   n < fuel \<Longrightarrow>
   \<exists>h' r res. filter_store fuel f h a = Some (h', r) \<and> frame (insert a S) h h' \<and> length h \<le> r \<and>
     map_entries h' r = Some res \<and>
     list_all2 (rel_prod (=) (inrep (S \<union> {length h..<length h'}) h' n)) res
       (filterMediaLibraryTaxonomy cs f)"
proof (induction n arbitrary: fuel h a es cs S)
  case 0
  from \<open>rep_entries h 0 es cs S\<close> have es: "es = []" and cs: "cs = []"
    using rep_entries_0 by blast+
  from \<open>0 < fuel\<close> obtain fuel' where fuel: "fuel = Suc fuel'" by (cases fuel) auto
  from \<open>map_entries h a = Some es\<close> have al: "a < length h" by (simp add: map_entries_def split: if_splits)
  have "filter_store fuel f h a = Some (h @ [HMap []], length h)"
    using \<open>map_entries h a = Some es\<close>
    by (simp add: fuel es compact_store_def alloc_def fromEntries_def)
  moreover have "frame (insert a S) h (h @ [HMap []])"
    using frame_alloc [of h "HMap []"] by (auto simp: alloc_def intro: frame_mono)
  moreover have "map_entries (h @ [HMap []]) (length h) = Some []" by (simp add: map_entries_def)
  moreover have "filterMediaLibraryTaxonomy cs f = []"
    by (simp add: cs filterMediaLibraryTaxonomy_def compactObject_def fromEntries_def)
  ultimately show ?case by simp
next
  case (Suc n)
  from Suc.prems(5) obtain fuel' where fuel: "fuel = Suc fuel'" and nf: "n < fuel'"
    by (cases fuel) auto
  from Suc.prems(1) have al: "a < length h" and ha: "h ! a = HMap ([] @ es)"
    by (auto simp: map_entries_def split: if_splits hobj.splits)
  from Suc.prems(2) have keys: "obj_keys es = obj_keys cs" by (rule rep_keys(2))
  from Suc.prems(4) keys have dk: "distinct (obj_keys ([] @ es))"
    and kos: "list_all (\<lambda>en. keys_once (snd en)) cs"
    by (simp_all add: keys_once_items_def)
  have rec: "\<exists>h' r res. filter_store fuel' f h a = Some (h', r) \<and> frame (insert a S) h h' \<and>
        length h \<le> r \<and> map_entries h' r = Some res \<and>
        list_all2 (rel_prod (=) (inrep (S \<union> {length h..<length h'}) h' n)) res
          (filterMediaLibraryTaxonomy cs f)"
    if "map_entries h a = Some es" "rep_entries h n es cs S" "a \<notin> S" "keys_once_items cs"
    for h a es cs S
    using Suc.IH [OF that nf] .
  have "\<exists>h' es'. filter_loop (filter_store fuel' f) f a es h = Some h' \<and>
       frame (insert a S) h h' \<and> h' ! a = HMap ([] @ es') \<and>
       list_all2 (rel_prod (=) (\<lambda>v nd. case filter_node f nd of None \<Rightarrow> v = HNull
            | Some nd' \<Rightarrow> inrep (S \<union> {length h..<length h'}) h' (Suc n) v nd')) es' cs"
    by (rule filter_loop_rep [where rc = "filter_store fuel' f" and f = f and ep = "[]",
          OF rec Suc.prems(2,3) al ha dk kos])
  then obtain h1 es' where lp: "filter_loop (filter_store fuel' f) f a es h = Some h1"
    and f1: "frame (insert a S) h h1" and h1a: "h1 ! a = HMap es'"
    and rel: "list_all2 (rel_prod (=) (\<lambda>v nd. case filter_node f nd of None \<Rightarrow> v = HNull
            | Some nd' \<Rightarrow> inrep (S \<union> {length h..<length h1}) h1 (Suc n) v nd')) es' cs"
    by auto
  from f1 have le1: "length h \<le> length h1" by (simp add: frame_def)
  with al h1a have me1: "map_entries h1 a = Some es'" by (simp add: map_entries_def)
  define res where "res = fromEntries (filter (\<lambda>en. snd en \<noteq> HNull) es')"
  define h' where "h' = h1 @ [HMap res]"
  have cp: "compact_store h1 a = Some (h', length h1)"
    by (simp add: compact_store_def me1 alloc_def h'_def res_def)
  have fs: "filter_store fuel f h a = Some (h', length h1)"
    using Suc.prems(1) by (simp add: fuel lp cp)
  have f2: "frame {} h1 h'" using frame_alloc [of h1 "HMap res"] by (simp add: alloc_def h'_def)
  have fr: "frame (insert a S) h h'" using frame_trans [OF f1 f2] by simp
  have mr: "map_entries h' (length h1) = Some res" by (simp add: map_entries_def h'_def)
  from fromEntries_rel [OF compact_rel [OF rel]]
  have "list_all2 (rel_prod (=) (inrep (S \<union> {length h..<length h1}) h1 (Suc n))) res
          (filterMediaLibraryTaxonomy cs f)"
    by (simp add: res_def filterMediaLibraryTaxonomy_def compactObject_def)
  then have "list_all2 (rel_prod (=) (inrep (S \<union> {length h..<length h'}) h' (Suc n))) res
          (filterMediaLibraryTaxonomy cs f)"
  proof (rule list_all2_mono)
    fix x :: "string \<times> hval" and y :: "string \<times> taxnode"
    assume xy: "rel_prod (=) (inrep (S \<union> {length h..<length h1}) h1 (Suc n)) x y"
    have "inrep (S \<union> {length h..<length h'}) h' (Suc n) v nd"
      if "inrep (S \<union> {length h..<length h1}) h1 (Suc n) v nd" for v nd
      by (rule inrep_frame [OF that f2]) (auto simp: h'_def)
    with xy show "rel_prod (=) (inrep (S \<union> {length h..<length h'}) h' (Suc n)) x y"
      by (cases x; cases y) auto
  qed
  with fs fr le1 mr show ?case by blast
qed

lemma frame_append: "frame {} h (h @ new)"
  by (simp add: frame_def nth_append)

lemma range_disjoint:
  fixes a b c :: nat
  assumes "S1 \<subseteq> {a..<b}" and "S2 \<subseteq> {b..<c}"
  shows "S1 \<inter> S2 = {}"
proof (rule ccontr)
  assume "S1 \<inter> S2 \<noteq> {}"
  then obtain x where x: "x \<in> S1" "x \<in> S2" by blast
  from assms(1) x(1) have "x \<in> {a..<b}" by (rule subsetD)
  moreover from assms(2) x(2) have "x \<in> {b..<c}" by (rule subsetD)
  ultimately show False by simp
qed

lemma range_union:
  fixes a b c :: nat
  assumes "S1 \<subseteq> {a..<b}" and "S2 \<subseteq> {b..<c}" and "a \<le> b" and "b \<le> c"
  shows "S1 \<union> S2 \<subseteq> {a..<c}"
proof
  fix x
  assume "x \<in> S1 \<union> S2"
  then consider "x \<in> S1" | "x \<in> S2" by blast
  then show "x \<in> {a..<c}"
  proof cases
    case 1
    with assms(1) have "x \<in> {a..<b}" by (rule subsetD)
    with assms(4) show ?thesis by simp
  next
    case 2
    with assms(2) have "x \<in> {b..<c}" by (rule subsetD)
    with assms(3) show ?thesis by simp
  qed
qed

lemma range_notin:
  fixes a b :: nat
  assumes "S \<subseteq> {a..<b}" and "b \<le> x"
  shows "x \<notin> S"
proof
  assume "x \<in> S"
  with assms(1) have "x \<in> {a..<b}" by (rule subsetD)
  with assms(2) show False by simp
qed

lemma inrep_load_entries:
  "list_all2 (rel_prod (=) (inrep A h n)) es cs \<Longrightarrow> load_entries (load_node n h) es = Some cs"
proof (induction rule: list_all2_induct)
  case Nil
  then show ?case by simp
next
  case (Cons x xs y ys)
  obtain k v where x: "x = (k, v)" by (cases x)
  obtain k' c where y: "y = (k', c)" by (cases y)
  from Cons.hyps(1) x y have kk: "k' = k" and i: "inrep A h n v c" by auto
  from i obtain b where v: "v = HRef b" using inrep_HNull by (cases v) auto
  from inrep_load_node [of A h n b c] i v have "load_node n h b = Some c" by simp
  with Cons.IH show ?case by (simp add: x y kk v)
qed

text \<open>The copy of a tree that the store holds is a tree of new objects, each reached once.\<close>

lemma clone_files:
  "load_files h es = Some fs \<Longrightarrow>
   \<exists>new es'. clone_entries (cloneDeep_store (Suc fuel)) h es = Some (h @ new, es') \<and>
     load_files (h @ new) es' = Some fs"
proof (induction es arbitrary: h fs)
  case Nil
  then show ?case by simp
next
  case (Cons e es)
  obtain k v where e: "e = (k, v)" by (cases e)
  from Cons.prems e obtain r rest where fa: "file_at h v = Some r"
    and lr: "load_files h es = Some rest" and fs: "fs = (k, r) # rest"
    by (auto split: option.splits)
  from fa obtain b where v: "v = HRef b" and b: "b < length h" and hb: "h ! b = HFile r"
    by (auto simp: file_at_def split: hval.splits if_splits hobj.splits)
  have c1: "cloneDeep_store (Suc fuel) h b = Some (h @ [HFile r], length h)"
    by (simp add: b hb alloc_def)
  from load_files_append [OF lr] have "load_files (h @ [HFile r]) es = Some rest" .
  from Cons.IH [OF this] obtain new es' where
    ce: "clone_entries (cloneDeep_store (Suc fuel)) (h @ [HFile r]) es = Some ((h @ [HFile r]) @ new, es')"
    and lf: "load_files ((h @ [HFile r]) @ new) es' = Some rest"
    by blast
  have "file_at ((h @ [HFile r]) @ new) (HRef (length h)) = Some r"
    by (simp add: file_at_def nth_append)
  with lf have "load_files (h @ (HFile r # new)) ((k, HRef (length h)) # es') = Some fs"
    by (simp add: fs)
  moreover from c1 ce
  have "clone_entries (cloneDeep_store (Suc fuel)) h (e # es) = Some (h @ (HFile r # new), (k, HRef (length h)) # es')"
    by (simp add: e v)
  ultimately show ?case by blast
qed

lemma clone_children:
  assumes rec: "\<And>h b nd. load_node n h b = Some nd \<Longrightarrow>
      \<exists>new c S. cf h b = Some (h @ new, c) \<and> rep_node (h @ new) n c nd S \<and>
        S \<subseteq> {length h..<length h + length new}"
  shows "load_entries (load_node n h) es = Some cs \<Longrightarrow>
     \<exists>new es' S. clone_entries cf h es = Some (h @ new, es') \<and> rep_entries (h @ new) n es' cs S \<and>
       S \<subseteq> {length h..<length h + length new}"
proof (induction es arbitrary: h cs)
  case Nil
  then have "cs = []" by simp
  then show ?case using rep_nil [of h n] by (intro exI [of _ "[]"]) simp
next
  case (Cons e es)
  obtain k v where e: "e = (k, v)" by (cases e)
  from Cons.prems e obtain b nd rest where v: "v = HRef b" and ln: "load_node n h b = Some nd"
    and lr: "load_entries (load_node n h) es = Some rest" and cs: "cs = (k, nd) # rest"
    by (auto split: hval.splits option.splits)
  from rec [OF ln] obtain new1 c S1 where c1: "cf h b = Some (h @ new1, c)"
    and r1: "rep_node (h @ new1) n c nd S1" and s1: "S1 \<subseteq> {length h..<length h + length new1}"
    by blast
  have "load_entries (load_node n (h @ new1)) es = Some rest"
    using lr by (rule load_entries_mono [rotated]) (rule load_node_append)
  from Cons.IH [OF this] obtain new2 es' S2 where
    ce: "clone_entries cf (h @ new1) es = Some ((h @ new1) @ new2, es')"
    and r2: "rep_entries ((h @ new1) @ new2) n es' rest S2"
    and s2: "S2 \<subseteq> {length (h @ new1)..<length (h @ new1) + length new2}"
    by blast
  have r1': "rep_node ((h @ new1) @ new2) n c nd S1"
    by (rule rep_frame(1) [where M = "{}", OF r1 frame_append]) simp
  from s2 have s2': "S2 \<subseteq> {length h + length new1..<length h + length new1 + length new2}"
    by simp
  from s1 s2' have dj: "S1 \<inter> S2 = {}" by (rule range_disjoint)
  from rep_cons [OF r1' r2 dj, of k]
  have "rep_entries (h @ (new1 @ new2)) n ((k, HRef c) # es') cs (S1 \<union> S2)" by (simp add: cs)
  moreover from c1 ce have "clone_entries cf h (e # es) = Some (h @ (new1 @ new2), (k, HRef c) # es')"
    by (simp add: e v)
  moreover from range_union [OF s1 s2']
  have "S1 \<union> S2 \<subseteq> {length h..<length h + length (new1 @ new2)}" by (simp add: add.assoc)
  ultimately show ?case by blast
qed

lemma clone_node:
  "load_node n h b = Some nd \<Longrightarrow> 2 * n + 1 \<le> fuel \<Longrightarrow>
   \<exists>new c S. cloneDeep_store fuel h b = Some (h @ new, c) \<and> rep_node (h @ new) n c nd S \<and>
     S \<subseteq> {length h..<length h + length new}"
proof (induction n arbitrary: h b nd fuel)
  case 0
  then show ?case by simp
next
  case (Suc n)
  from Suc.prems(2) obtain f1 where fuel: "fuel = Suc f1" and f1: "2 * n + 2 \<le> f1"
    by (cases fuel) auto
  from f1 obtain f2 where f12: "f1 = Suc f2" and f2: "2 * n + 1 \<le> f2"
    by (cases f1) auto
  from Suc.prems(1) have b: "b < length h" by (simp split: if_splits)
  from Suc.prems(1) b obtain k d nn e m t es where hb: "h ! b = HNode k d nn e m t"
    and me: "map_entries h m = Some es"
    by (cases "h ! b") (auto split: option.splits)
  from me have m: "m < length h" and hm: "h ! m = HMap es"
    by (auto simp: map_entries_def split: if_splits hobj.splits)
  have step: "\<exists>new c S. cloneDeep_store fuel h b = Some (h @ new, c) \<and>
      rep_node (h @ new) (Suc n) c nd' S \<and> S \<subseteq> {length h..<length h + length new}"
    if ce: "clone_entries (cloneDeep_store f2) h es = Some (h @ new, es')"
      and ok: "rep_node ((h @ new) @ [HMap es', HNode k d nn e (length h + length new) t]) (Suc n)
         (Suc (length h + length new)) nd' S"
      and sb: "S \<subseteq> {length h..<Suc (Suc (length h + length new))}"
    for new es' nd' S
  proof -
    have cm: "cloneDeep_store f1 h m = Some ((h @ new) @ [HMap es'], length h + length new)"
      by (simp add: f12 m hm ce alloc_def)
    have cb: "cloneDeep_store fuel h b =
        Some (h @ (new @ [HMap es', HNode k d nn e (length h + length new) t]), Suc (length h + length new))"
      by (simp add: fuel b hb cm alloc_def)
    from ok have "rep_node (h @ (new @ [HMap es', HNode k d nn e (length h + length new) t])) (Suc n)
         (Suc (length h + length new)) nd' S"
      by simp
    moreover from sb
    have "S \<subseteq> {length h..<length h + length (new @ [HMap es', HNode k d nn e (length h + length new) t])}"
      by simp
    ultimately show ?thesis using cb by blast
  qed
  show ?case
  proof (cases e)
    case True
    with Suc.prems(1) b hb me obtain fs where lf: "load_files h es = Some fs"
      and nd: "nd = Leaf k d nn fs t"
      by (auto split: option.splits)
    from f2 obtain f3 where f3: "f2 = Suc f3" by (cases f2) auto
    from clone_files [OF lf, of f3] obtain new es' where
      ce: "clone_entries (cloneDeep_store f2) h es = Some (h @ new, es')"
      and lf': "load_files (h @ new) es' = Some fs"
      by (auto simp: f3)
    define h' where "h' = (h @ new) @ [HMap es', HNode k d nn e (length h + length new) t]"
    define b' where "b' = Suc (length h + length new)"
    have "b' < length h'" by (simp add: h'_def b'_def)
    moreover have "h' ! b' = HNode k d nn True (length h + length new) t"
      by (simp add: h'_def b'_def nth_append True)
    moreover have "map_entries h' (length h + length new) = Some es'"
      by (simp add: h'_def map_entries_def nth_append)
    moreover from load_files_append [OF lf'] have "load_files h' es' = Some fs" by (simp add: h'_def)
    ultimately have "rep_node h' (Suc n) b' (Leaf k d nn fs t) {b', length h + length new}"
      by (rule rep_leaf)
    then have rn: "rep_node ((h @ new) @ [HMap es', HNode k d nn e (length h + length new) t]) (Suc n)
         (Suc (length h + length new)) (Leaf k d nn fs t) {b', length h + length new}"
      by (simp add: h'_def b'_def)
    have sb: "{b', length h + length new} \<subseteq> {length h..<Suc (Suc (length h + length new))}"
      by (simp add: b'_def)
    from step [OF ce rn sb] show ?thesis unfolding nd .
  next
    case False
    with Suc.prems(1) b hb me obtain cs where le: "load_entries (load_node n h) es = Some cs"
      and nd: "nd = Branch k d nn cs"
      by (auto split: option.splits)
    have rec: "\<exists>new c S. cloneDeep_store f2 h b = Some (h @ new, c) \<and> rep_node (h @ new) n c nd S \<and>
        S \<subseteq> {length h..<length h + length new}" if "load_node n h b = Some nd" for h b nd
      using Suc.IH [OF that f2] .
    have "\<exists>new es' S. clone_entries (cloneDeep_store f2) h es = Some (h @ new, es') \<and>
        rep_entries (h @ new) n es' cs S \<and> S \<subseteq> {length h..<length h + length new}"
      by (rule clone_children [where cf = "cloneDeep_store f2", OF rec le])
    then obtain new es' S where
      ce: "clone_entries (cloneDeep_store f2) h es = Some (h @ new, es')"
      and re: "rep_entries (h @ new) n es' cs S" and s: "S \<subseteq> {length h..<length h + length new}"
      by blast
    define h' where "h' = (h @ new) @ [HMap es', HNode k d nn e (length h + length new) t]"
    define b' where "b' = Suc (length h + length new)"
    have "b' < length h'" by (simp add: h'_def b'_def)
    moreover have "h' ! b' = HNode k d nn False (length h + length new) t"
      by (simp add: h'_def b'_def nth_append False)
    moreover have "map_entries h' (length h + length new) = Some es'"
      by (simp add: h'_def map_entries_def nth_append)
    moreover have "rep_entries h' n es' cs S"
      unfolding h'_def by (rule rep_frame(2) [where M = "{}", OF re frame_append]) simp
    moreover from s have "b' \<notin> S" "length h + length new \<notin> S"
      by (rule range_notin, simp add: b'_def)+
    ultimately have "rep_node h' (Suc n) b' (Branch k d nn cs)
        (insert b' (insert (length h + length new) S))"
      by (rule rep_branch)
    then have rn: "rep_node ((h @ new) @ [HMap es', HNode k d nn e (length h + length new) t]) (Suc n)
         (Suc (length h + length new)) (Branch k d nn cs) (insert b' (insert (length h + length new) S))"
      by (simp add: h'_def b'_def)
    from s have "S \<subseteq> {length h..<Suc (Suc (length h + length new))}"
      by (rule subset_trans) simp
    then have sb: "insert b' (insert (length h + length new) S) \<subseteq>
        {length h..<Suc (Suc (length h + length new))}"
      by (simp add: b'_def)
    from step [OF ce rn sb] show ?thesis unfolding nd .
  qed
qed

lemma clone_items:
  assumes "load_items n h a = Some t" and "2 * n + 2 \<le> fuel"
  shows "\<exists>h1 c es S. cloneDeep_store fuel h a = Some (h1, c) \<and> map_entries h1 c = Some es \<and>
           rep_entries h1 n es t S \<and> c \<notin> S"
proof -
  from assms(1) obtain es where me: "map_entries h a = Some es"
    and le: "load_entries (load_node n h) es = Some t"
    by (auto simp: load_items_def split: option.splits)
  from me have a: "a < length h" and ha: "h ! a = HMap es"
    by (auto simp: map_entries_def split: if_splits hobj.splits)
  from assms(2) obtain f1 where fuel: "fuel = Suc f1" and f1: "2 * n + 1 \<le> f1"
    by (cases fuel) auto
  have rec: "\<exists>new c S. cloneDeep_store f1 h b = Some (h @ new, c) \<and> rep_node (h @ new) n c nd S \<and>
      S \<subseteq> {length h..<length h + length new}" if "load_node n h b = Some nd" for h b nd
    using clone_node [OF that f1] .
  have "\<exists>new es' S. clone_entries (cloneDeep_store f1) h es = Some (h @ new, es') \<and>
      rep_entries (h @ new) n es' t S \<and> S \<subseteq> {length h..<length h + length new}"
    by (rule clone_children [where cf = "cloneDeep_store f1", OF rec le])
  then obtain new es' S where
    ce: "clone_entries (cloneDeep_store f1) h es = Some (h @ new, es')"
    and re: "rep_entries (h @ new) n es' t S" and s: "S \<subseteq> {length h..<length h + length new}"
    by blast
  have "cloneDeep_store fuel h a = Some ((h @ new) @ [HMap es'], length h + length new)"
    by (simp add: fuel a ha ce alloc_def)
  moreover have "map_entries ((h @ new) @ [HMap es']) (length h + length new) = Some es'"
    by (simp add: map_entries_def nth_append)
  moreover have "rep_entries ((h @ new) @ [HMap es']) n es' t S"
    by (rule rep_frame(2) [where M = "{}", OF re frame_append]) simp
  moreover from s have "length h + length new \<notin> S" by (rule range_notin) simp
  ultimately show ?thesis by blast
qed

text \<open>With enough fuel the derivation returns, and what it returns reads as the filtered tree.\<close>

lemma derive_store_returns:
  assumes "load_items n h a = Some t" and "keys_once_items t" and "2 * n + 2 \<le> fuel"
  shows "\<exists>h' r. derive_store fuel f h a = Some (h', r) \<and>
           load_items n h' r = Some (filterMediaLibraryTaxonomy t f)"
proof -
  from clone_items [OF assms(1,3)] obtain h1 c es S where
    cl: "cloneDeep_store fuel h a = Some (h1, c)" and me: "map_entries h1 c = Some es"
    and re: "rep_entries h1 n es t S" and c: "c \<notin> S"
    by blast
  from assms(3) have "n < fuel" by simp
  from filter_store_rep [OF me re c assms(2) this, of f] obtain h' r res where
    fs: "filter_store fuel f h1 c = Some (h', r)" and mr: "map_entries h' r = Some res"
    and rel: "list_all2 (rel_prod (=) (inrep (S \<union> {length h1..<length h'}) h' n)) res
       (filterMediaLibraryTaxonomy t f)"
    by blast
  from inrep_load_entries [OF rel] mr
  have "load_items n h' r = Some (filterMediaLibraryTaxonomy t f)" by (simp add: load_items_def)
  with cl fs show ?thesis by (simp add: derive_store_def)
qed

text \<open>What the derivation leaves as it was, whenever it returns.\<close>

lemma derive_store_frame:
  assumes "derive_store fuel f h a = Some (h', r)"
  shows "take (length h) h' = h \<and> length h \<le> r \<and> closed_from (length h) h' \<and>
         (load_items n h a = Some t \<longrightarrow> load_items n h' a = Some t)"
proof -
  from assms obtain h1 c where cl: "cloneDeep_store fuel h a = Some (h1, c)"
    and fl: "filter_store fuel f h1 c = Some (h', r)"
    by (auto simp: derive_store_def split: option.splits)
  have "extends (length h) h h1 \<and> length h \<le> c"
    using cl by (intro cloneDeep_store_extends) simp
  then have e: "extends (length h) h h1" and c: "length h \<le> c" by simp_all
  from extends_closed [OF e] have t1: "take (length h) h1 = h" and c1: "closed_from (length h) h1" .
  from filter_store_keeps [OF c1 c fl]
  have k: "keeps (length h) h1 h'" and r: "length h \<le> r" by simp_all
  from k t1 have t2: "take (length h) h' = h" and c2: "closed_from (length h) h'"
    by (simp_all add: keeps_def)
  have "load_items n h' a = Some t" if "load_items n h a = Some t"
  proof -
    have "h' = h @ drop (length h) h'" using t2 by (metis append_take_drop_id)
    with load_items_append [OF that, of "drop (length h) h'"] show ?thesis by simp
  qed
  with t2 r c2 show ?thesis by blast
qed

text \<open>The trees the builder makes hold each key once.\<close>

lemma keys_once_sorted:
  assumes "list_all (\<lambda>en. keys_once (snd en)) its"
  shows "distinct (obj_keys (sortTaxonomyItems its)) \<and>
         list_all (\<lambda>en. keys_once (snd en)) (sortTaxonomyItems its)"
proof -
  have "set (sortTaxonomyItems its) \<subseteq> set its"
    using set_fromEntries [of "orderBy its (\<lambda>en. [JStr (fst en)])"]
    by (simp add: sortTaxonomyItems_def set_orderBy)
  with assms have "list_all (\<lambda>en. keys_once (snd en)) (sortTaxonomyItems its)"
    by (auto simp: list_all_iff)
  then show ?thesis by (simp add: sortTaxonomyItems_def distinct_fromEntries)
qed

lemma collectMediaLibraryTaxonomy_keys_once:
  "keys_once_items (collectMediaLibraryTaxonomy dataFiles taxKey remainingTaxKeys)"
proof (induction remainingTaxKeys arbitrary: dataFiles taxKey)
  case Nil
  have "obj_keys (collectMediaLibraryTaxonomy dataFiles taxKey []) =
      obj_keys (collect_groups dataFiles taxKey)"
    by (simp add: obj_keys_def comp_def)
  then show ?case
    by (simp add: keys_once_items_def collect_groups_distinct)
       (simp add: list_all_iff end_node_def Let_def)
next
  case (Cons k ks)
  have keys: "obj_keys (collectMediaLibraryTaxonomy dataFiles taxKey (k # ks)) =
      obj_keys (collect_groups dataFiles taxKey)"
    by (simp add: obj_keys_def comp_def)
  have "keys_once (Branch taxKey d nn (sortTaxonomyItems (collectMediaLibraryTaxonomy fs k ks)))"
    for d nn fs
    using keys_once_sorted [of "collectMediaLibraryTaxonomy fs k ks"] Cons.IH [of fs k]
    by (simp add: keys_once_items_def)
  then have "list_all (\<lambda>en. keys_once (snd en)) (collectMediaLibraryTaxonomy dataFiles taxKey (k # ks))"
    by (simp add: list_all_iff)
  with keys show ?case by (simp add: keys_once_items_def collect_groups_distinct)
qed

text \<open>
  C9: the tree of a secondary category is made by filtering a copy. For every tree that
  the store holds at an address, every predicate and enough fuel, the derivation returns;
  every object that was in the store before it, the objects of the primary tree among
  them, is as it was, so the primary tree read from the store is the same tree as
  before; the derived tree is made of new objects only: its root is new and no new
  object refers to an object that was there before, so no node, no \<open>items\<close> object and
  no file record is shared between the two trees; and the derived tree reads as the
  filtered primary tree.
\<close>

theorem derive_store_independent_copy:
  assumes "load_items n h a = Some t" and "keys_once_items t" and "2 * n + 2 \<le> fuel"
  shows "\<exists>h' r. derive_store fuel f h a = Some (h', r) \<and>
           take (length h) h' = h \<and> length h \<le> r \<and> closed_from (length h) h' \<and>
           load_items n h' a = Some t \<and>
           load_items n h' r = Some (filterMediaLibraryTaxonomy t f)"
proof -
  from derive_store_returns [OF assms, of f] obtain h' r where
    d: "derive_store fuel f h a = Some (h', r)"
    and l: "load_items n h' r = Some (filterMediaLibraryTaxonomy t f)"
    by blast
  from derive_store_frame [OF d, of n t] assms(1)
  have "take (length h) h' = h \<and> length h \<le> r \<and> closed_from (length h) h' \<and>
      load_items n h' a = Some t"
    by simp
  with d l show ?thesis by blast
qed

lemma ex_store_tree: "load_items 2 (fst ex_store) (snd ex_store) = Some ex_tree"
  by code_simp

lemma ex_store_length: "length (fst ex_store) = 7"
  by code_simp

lemma ex_tree_keys_once: "keys_once_items ex_tree"
  by code_simp

lemma ex_derived_result:
  "(case ex_derived of
      None \<Rightarrow> False
    | Some hr \<Rightarrow>
        filterMediaLibraryTaxonomy ex_tree (cat_filter ex_secondary) \<noteq> ex_tree \<and>
        filterMediaLibraryTaxonomy ex_tree (cat_filter ex_secondary) \<noteq> [])"
  by code_simp

text \<open>Filtering the tree itself, without the copy, changes it.\<close>

lemma ex_filter_in_place:
  "(case filter_store 6 (cat_filter ex_secondary) (fst ex_store) (snd ex_store) of
      None \<Rightarrow> False
    | Some hr \<Rightarrow> load_items 2 (fst hr) (snd ex_store) \<noteq> Some ex_tree)"
  by code_simp

theorem derive_store_independent_copy_witness:
  "(case ex_derived of
      None \<Rightarrow> False
    | Some hr \<Rightarrow>
        take 7 (fst hr) = fst ex_store \<and> 7 \<le> snd hr \<and> closed_from 7 (fst hr) \<and>
        load_items 2 (fst hr) (snd ex_store) = Some ex_tree \<and>
        load_items 2 (fst hr) (snd hr) =
          Some (filterMediaLibraryTaxonomy ex_tree (cat_filter ex_secondary)))"
proof -
  have "2 * 2 + 2 \<le> (6::nat)" by simp
  from derive_store_independent_copy [OF ex_store_tree ex_tree_keys_once this,
      of "cat_filter ex_secondary"]
  obtain h' r where d: "derive_store 6 (cat_filter ex_secondary) (fst ex_store) (snd ex_store) = Some (h', r)"
    and fr: "take (length (fst ex_store)) h' = fst ex_store" "length (fst ex_store) \<le> r"
      "closed_from (length (fst ex_store)) h'"
      "load_items 2 h' (snd ex_store) = Some ex_tree"
      "load_items 2 h' r = Some (filterMediaLibraryTaxonomy ex_tree (cat_filter ex_secondary))"
    by blast
  from d have e: "ex_derived = Some (h', r)" by (simp add: ex_derived_def)
  from fr show ?thesis unfolding e by (simp add: ex_store_length)
qed

end
